theory Spec2Isabelle
  imports Main "HOL-Library.Word" "HOL-Library.Sublist" "HOL-Library.Char_ord"
    "HOL-Library.List_Lexorder"
begin

section \<open>The type graph of src-ts/Type.ts\<close>

text \<open>
  The nodes of the type graph are JavaScript objects that refer to each other, possibly in
  cycles. A node reference is an index into an arena of nodes (the heap); reference
  identity (\<^verbatim>\<open>===\<close>) is equality of indices.
\<close>

type_synonym ref = nat

subsection \<open>Faults\<close>

text \<open>
  Modelled from the spec: \<^verbatim>\<open>panic\<close>, \<^verbatim>\<open>assert\<close> and \<^verbatim>\<open>defined\<close> are imported from
  \<^verbatim>\<open>./Support\<close>; the spec calls them the fatal invariant-violation fault. \<open>Panic msg\<close> is
  \<^verbatim>\<open>panic(msg)\<close>, \<open>AssertionFailed\<close> is a failed \<^verbatim>\<open>assert\<close>, \<open>NotDefined\<close> is
  \<^verbatim>\<open>defined\<close> applied to \<^verbatim>\<open>undefined\<close>. \<open>TypeError\<close> is the error of JavaScript when a
  property of \<^verbatim>\<open>undefined\<close> is read. \<open>Dangling\<close> is a reference to no node of the arena,
  which no JavaScript object graph has.
\<close>

datatype error = Panic string | AssertionFailed | NotDefined | TypeError | Dangling

subsection \<open>combineNames (Type.ts, l. 140-174)\<close>

text \<open>
  A string is the list of its code units; \<^verbatim>\<open>s[i]\<close> is \<^verbatim>\<open>undefined\<close> out of range.
\<close>

definition charAt :: "string \<Rightarrow> nat \<Rightarrow> char option" where
  "charAt s i = (if i < length s then Some (s ! i) else None)"

text \<open>
  The two inner loops, \<^verbatim>\<open>for (let i = 0; i < prefixLength; i++)\<close> and its twin for the
  suffix: the loop variable and the current bound are arguments, the result is the bound
  after the loop (set to \<open>i\<close> at the \<^verbatim>\<open>break\<close>).
\<close>

function prefixLoop :: "string \<Rightarrow> string \<Rightarrow> nat \<Rightarrow> nat \<Rightarrow> nat" where
  "prefixLoop first n i prefixLength =
     (if i < prefixLength
      then (if charAt first i \<noteq> charAt n i then i
            else prefixLoop first n (Suc i) prefixLength)
      else prefixLength)"
  by pat_completeness auto
termination
  by (relation "measure (\<lambda>(first, n, i, prefixLength). prefixLength - i)") auto

declare prefixLoop.simps [simp del]

function suffixLoop :: "string \<Rightarrow> string \<Rightarrow> nat \<Rightarrow> nat \<Rightarrow> nat" where
  "suffixLoop first n i suffixLength =
     (if i < suffixLength
      then (if charAt first (length first - i - 1) \<noteq> charAt n (length n - i - 1) then i
            else suffixLoop first n (Suc i) suffixLength)
      else suffixLength)"
  by pat_completeness auto
termination
  by (relation "measure (\<lambda>(first, n, i, suffixLength). suffixLength - i)") auto

declare suffixLoop.simps [simp del]

text \<open>The body of \<^verbatim>\<open>names.rest().forEach(n => ...)\<close> on the pair of the two bounds.\<close>

definition combineStep :: "string \<Rightarrow> string \<Rightarrow> nat \<times> nat \<Rightarrow> nat \<times> nat" where
  "combineStep first n = (\<lambda>(prefixLength, suffixLength).
     (prefixLoop first n 0 (min prefixLength (length n)),
      suffixLoop first n 0 (min suffixLength (length n))))"

definition combineNames :: "string list \<Rightarrow> error + string" where
  "combineNames names =
     (case names of
        [] \<Rightarrow> Inl (Panic ''Named type has no names'')
      | first # rest \<Rightarrow>
          if length names = 1 then Inr first
          else
            (case fold (combineStep first) rest (length first, length first) of
               (prefixLength, suffixLength) \<Rightarrow>
                 let prefix = (if prefixLength > 2 then take prefixLength first else []);
                     suffix = (if suffixLength > 2
                               then drop (length first - suffixLength) first else []);
                     combined = prefix @ suffix
                 in if length combined > 2 then Inr combined else Inr first))"

text \<open>
  The spec's words, to compare with: the longest common prefix (suffix) of all names is a
  prefix (suffix) of every name that no common prefix (suffix) exceeds in length.
\<close>

definition longestCommonPrefix :: "string list \<Rightarrow> string \<Rightarrow> bool" where
  "longestCommonPrefix names p \<longleftrightarrow>
     (\<forall>n \<in> set names. prefix p n) \<and>
     (\<forall>q. (\<forall>n \<in> set names. prefix q n) \<longrightarrow> length q \<le> length p)"

definition longestCommonSuffix :: "string list \<Rightarrow> string \<Rightarrow> bool" where
  "longestCommonSuffix names s \<longleftrightarrow>
     (\<forall>n \<in> set names. suffix s n) \<and>
     (\<forall>q. (\<forall>n \<in> set names. suffix q n) \<longrightarrow> length q \<le> length s)"

definition keepIfLong :: "string \<Rightarrow> string" where
  "keepIfLong s = (if length s > 2 then s else [])"

definition combinedNameSpec :: "string \<Rightarrow> string \<Rightarrow> string \<Rightarrow> string" where
  "combinedNameSpec first p s =
     (if length (keepIfLong p @ keepIfLong s) > 2 then keepIfLong p @ keepIfLong s else first)"

text \<open>
  The invariant of the outer loop for the prefix bound: \<open>pl\<close> is the length of the longest
  common prefix of \<open>first\<close> and the names \<open>ns\<close> seen so far.
\<close>

definition PInv :: "string \<Rightarrow> string list \<Rightarrow> nat \<Rightarrow> bool" where
  "PInv first ns pl \<longleftrightarrow>
     pl \<le> length first \<and> (\<forall>n \<in> set ns. pl \<le> length n \<and> take pl n = take pl first) \<and>
     (\<forall>q. prefix q first \<and> (\<forall>n \<in> set ns. prefix q n) \<longrightarrow> length q \<le> pl)"

subsection \<open>NamedType (Type.ts, l. 178-224)\<close>

text \<open>
  An \<^verbatim>\<open>OrderedSet<string>\<close> is the list of its elements in insertion order, without
  duplicates; \<^verbatim>\<open>add\<close> appends an element that is not yet there.
\<close>

definition orderedSet_add :: "'a list \<Rightarrow> 'a \<Rightarrow> 'a list" where
  "orderedSet_add s x = (if x \<in> set s then s else s @ [x])"

datatype nameOrNames = Name string | Names "string list"

record namedType =
  p_names :: "string list"
  p_areNamesInferred :: bool

text \<open>The constructor's treatment of its \<^verbatim>\<open>nameOrNames\<close> argument.\<close>

definition namesOf :: "nameOrNames \<Rightarrow> string list" where
  "namesOf nameOrNames = (case nameOrNames of Name n \<Rightarrow> [n] | Names ns \<Rightarrow> ns)"

definition addName :: "string \<Rightarrow> bool \<Rightarrow> 'a namedType_scheme \<Rightarrow> 'a namedType_scheme" where
  "addName name isInferred this =
     (if isInferred \<and> \<not> p_areNamesInferred this then this
      else if p_areNamesInferred this \<and> \<not> isInferred
           then this\<lparr>p_names := [name], p_areNamesInferred := isInferred\<rparr>
           else this\<lparr>p_names := orderedSet_add (p_names this) name\<rparr>)"

definition setGivenName :: "string \<Rightarrow> 'a namedType_scheme \<Rightarrow> 'a namedType_scheme" where
  "setGivenName name this = this\<lparr>p_names := [name], p_areNamesInferred := False\<rparr>"

definition combinedName :: "'a namedType_scheme \<Rightarrow> error + string" where
  "combinedName this = combineNames (p_names this)"

subsection \<open>The collections of Immutable.js that hold nodes\<close>

text \<open>
  \<^verbatim>\<open>Set<Type>\<close> and \<^verbatim>\<open>OrderedSet<Type>\<close> are objects of the library Immutable.js (version
  4), which is not part of the source; they are modelled from the library's code, as far
  as the source uses them. A \<^verbatim>\<open>Map\<close> of the library is empty (no root), or an
  \<^verbatim>\<open>ArrayMapNode\<close>, an array of at most 8 entries that is scanned, or a trie over the
  hashes of its keys, 5 bits a level: a \<^verbatim>\<open>ValueNode\<close> holds one entry and the hash of its
  key, a \<^verbatim>\<open>HashCollisionNode\<close> the entries of one hash, a \<^verbatim>\<open>BitmapIndexedNode\<close> the
  children present among 32, in the order of their indices (a \<^verbatim>\<open>HashArrayMapNode\<close>, which
  the library uses for more than 16 children, holds the same children in an array of 32
  and is not distinguished here). A \<^verbatim>\<open>Set\<close> is a map from its elements to themselves. An
  \<^verbatim>\<open>OrderedSet\<close> is the list of its elements in insertion order together with a map
  from its elements to their positions in the list.
\<close>

datatype 'v trieNode =
    ValueNode "32 word" "ref \<times> 'v"
  | HashCollisionNode "32 word" "(ref \<times> 'v) list"
  | BitmapIndexedNode "(nat \<times> 'v trieNode) list"

datatype 'v mapNode = ArrayMapNode "(ref \<times> 'v) list" | TrieNode "'v trieNode"

type_synonym typeSet = "ref mapNode option"

record orderedSet =
  oMap :: "nat mapNode option"
  oList :: "ref list"

subsection \<open>ClassType, EnumType, UnionType: the fields\<close>

text \<open>
  \<^verbatim>\<open>Map<string, Type>\<close> is the list of its entries in iteration order, with distinct
  keys. A class holds \<open>None\<close> while its properties are \<^verbatim>\<open>undefined\<close>.
\<close>

type_synonym properties = "(string \<times> ref) list"

record classType = namedType +
  p_properties :: "properties option"

record enumType = namedType +
  enumCases :: "string list"

text \<open>
  The field \<^verbatim>\<open>members\<close> of a union is an \<^verbatim>\<open>OrderedSet<Type>\<close>: \<open>members\<close> is the list of
  its elements, \<open>membersMap\<close> its map from the elements to their positions.
\<close>

record unionType = namedType +
  members :: "ref list"
  membersMap :: "nat mapNode option"

definition memberSet :: "unionType \<Rightarrow> orderedSet" where
  "memberSet this = \<lparr>oMap = membersMap this, oList = members this\<rparr>"

definition new_ClassType :: "nameOrNames \<Rightarrow> bool \<Rightarrow> properties option \<Rightarrow> classType" where
  "new_ClassType names areNamesInferred props =
     \<lparr>p_names = namesOf names, p_areNamesInferred = areNamesInferred, p_properties = props\<rparr>"

definition setProperties :: "properties \<Rightarrow> classType \<Rightarrow> error + classType" where
  "setProperties props this =
     (if p_properties this \<noteq> None then Inl (Panic ''Can only set class properties once'')
      else Inr (this\<lparr>p_properties := Some props\<rparr>))"

definition properties :: "classType \<Rightarrow> error + properties" where
  "properties this =
     (case p_properties this of
        None \<Rightarrow> Inl (Panic ''Class properties accessed before they were set'')
      | Some props \<Rightarrow> Inr props)"

subsection \<open>Nodes and the heap\<close>

text \<open>
  Modelled from the spec: the kind tags \<^verbatim>\<open>TypeKind\<close>, \<^verbatim>\<open>PrimitiveTypeKind\<close> and
  \<^verbatim>\<open>NamedTypeKind\<close> are imported from \<^verbatim>\<open>Reykjavik\<close>. The primitive kinds are any, null,
  bool, integer, double and string (spec, section 3; \<^verbatim>\<open>matchType\<close>, l. 554-561); at run
  time a kind is its string.
\<close>

datatype primitiveTypeKind = KAny | KNull | KBool | KInteger | KDouble | KString

fun primitiveKindName :: "primitiveTypeKind \<Rightarrow> string" where
  "primitiveKindName KAny = ''any''"
| "primitiveKindName KNull = ''null''"
| "primitiveKindName KBool = ''bool''"
| "primitiveKindName KInteger = ''integer''"
| "primitiveKindName KDouble = ''double''"
| "primitiveKindName KString = ''string''"

datatype typeNode =
    PrimitiveType primitiveTypeKind
  | ArrayType ref
  | MapType ref
  | ClassType classType
  | EnumType enumType
  | UnionType unionType

text \<open>The field \<^verbatim>\<open>kind\<close>, as each constructor passes it to \<^verbatim>\<open>super\<close>.\<close>

fun kind :: "typeNode \<Rightarrow> string" where
  "kind (PrimitiveType k) = primitiveKindName k"
| "kind (ArrayType items) = ''array''"
| "kind (MapType values) = ''map''"
| "kind (ClassType c) = ''class''"
| "kind (EnumType e) = ''enum''"
| "kind (UnionType u) = ''union''"

type_synonym heap = "typeNode list"

definition nodeAt :: "heap \<Rightarrow> ref \<Rightarrow> typeNode option" where
  "nodeAt h t = (if t < length h then Some (h ! t) else None)"

text \<open>\<^verbatim>\<open>new\<close>: the object gets the next free index.\<close>

definition alloc :: "heap \<Rightarrow> typeNode \<Rightarrow> ref \<times> heap" where
  "alloc h node = (length h, h @ [node])"

subsection \<open>Results\<close>

text \<open>
  A call that recurses through the graph takes fuel, a bound on the depth of its recursion:
  \<open>None\<close> is the call that has not returned within the fuel (the JavaScript call that
  recurses without end), \<open>Some (Inl e)\<close> the call that threw \<open>e\<close>, \<open>Some (Inr x)\<close> the
  call that returned \<open>x\<close>.
\<close>

type_synonym 'a result = "(error + 'a) option"

definition ok :: "'a \<Rightarrow> 'a result" where
  "ok x = Some (Inr x)"

definition fault :: "error \<Rightarrow> 'a result" where
  "fault e = Some (Inl e)"

definition andThen :: "'a result \<Rightarrow> ('a \<Rightarrow> 'b result) \<Rightarrow> 'b result" where
  "andThen m f = (case m of None \<Rightarrow> None | Some (Inl e) \<Rightarrow> Some (Inl e) | Some (Inr x) \<Rightarrow> f x)"

definition lift :: "error + 'a \<Rightarrow> 'a result" where
  "lift r = Some r"

text \<open>A \<^verbatim>\<open>forEach\<close> whose body updates an accumulator and may throw.\<close>

primrec forEachAcc :: "('a \<Rightarrow> 'b \<Rightarrow> 'b result) \<Rightarrow> 'a list \<Rightarrow> 'b \<Rightarrow> 'b result" where
  "forEachAcc f [] acc = ok acc"
| "forEachAcc f (x # xs) acc = andThen (f x acc) (forEachAcc f xs)"

subsection \<open>Hashing (flatHashCode and hashCode of each class)\<close>

text \<open>
  The hashes are 32-bit: every hash expression of the source ends in \<^verbatim>\<open>| 0\<close>, and its
  sums are far below \<open>2^53\<close>, so they are sums of 32-bit words. Three library functions
  are parameters: \<^verbatim>\<open>stringHash\<close> (the package string-hash), the \<^verbatim>\<open>hashCode\<close> of an
  \<^verbatim>\<open>OrderedSet<string>\<close> (Immutable.js), and what the function \<^verbatim>\<open>hash\<close> of Immutable.js
  makes of the number that the \<^verbatim>\<open>hashCode\<close> of an object returns (the number itself, or
  the number with its top bit folded in, according to the version of the library).
\<close>

record hashing =
  stringHash :: "string \<Rightarrow> 32 word"
  namesHash :: "string list \<Rightarrow> 32 word"
  immutableHash :: "32 word \<Rightarrow> 32 word"

fun flatHashCode :: "hashing \<Rightarrow> nat \<Rightarrow> heap \<Rightarrow> ref \<Rightarrow> 32 word result"
  and hashCode :: "hashing \<Rightarrow> nat \<Rightarrow> heap \<Rightarrow> ref \<Rightarrow> 32 word result" where
  "flatHashCode H 0 h this = None"
| "flatHashCode H (Suc n) h this =
     (case nodeAt h this of
        None \<Rightarrow> fault Dangling
      | Some (PrimitiveType k) \<Rightarrow> ok (stringHash H (primitiveKindName k))
      | Some (ArrayType items) \<Rightarrow>
          andThen (hashCode H n h items) (\<lambda>x. ok (stringHash H ''array'' + x))
      | Some (MapType values) \<Rightarrow>
          andThen (hashCode H n h values) (\<lambda>x. ok (stringHash H ''map'' + x))
      | Some (ClassType c) \<Rightarrow>
          andThen (lift (properties c)) (\<lambda>props.
            ok (stringHash H ''class'' + namesHash H (p_names c) + of_nat (length props)))
      | Some (EnumType e) \<Rightarrow>
          ok (stringHash H ''enum'' + namesHash H (p_names e) + namesHash H (enumCases e))
      | Some (UnionType u) \<Rightarrow>
          ok (stringHash H ''union'' + namesHash H (p_names u) + of_nat (length (members u))))"
| "hashCode H 0 h this = None"
| "hashCode H (Suc n) h this =
     (case nodeAt h this of
        None \<Rightarrow> fault Dangling
      | Some (ClassType c) \<Rightarrow>
          andThen (flatHashCode H n h this) (\<lambda>hash.
          andThen (lift (properties c)) (\<lambda>props.
            forEachAcc (\<lambda>(name, t) hash.
                andThen (flatHashCode H n h t) (\<lambda>f. ok (hash + f + stringHash H name)))
              props hash))
      | Some (UnionType u) \<Rightarrow>
          andThen (flatHashCode H n h this) (\<lambda>hash.
            forEachAcc (\<lambda>t hash. andThen (flatHashCode H n h t) (\<lambda>f. ok (hash + f)))
              (members u) hash)
      | Some _ \<Rightarrow> flatHashCode H n h this)"

subsection \<open>expandForEquality of each class\<close>

datatype expansion = Result bool | Queue "(ref \<times> ref) list"

text \<open>
  The \<^verbatim>\<open>forEach\<close> of ClassType.expandForEquality: it stops at the first property that
  the other class lacks (the callback returns \<^verbatim>\<open>false\<close>).
\<close>

fun classQueue :: "properties \<Rightarrow> properties \<Rightarrow> (ref \<times> ref) list" where
  "classQueue [] other = []"
| "classQueue ((name, t) # props) other =
     (case map_of other name of
        None \<Rightarrow> []
      | Some otherT \<Rightarrow> (t, otherT) # classQueue props other)"

text \<open>
  UnionType.expandForEquality: the members with their kinds; \<^verbatim>\<open>otherByKind\<close>, where a
  later member of a kind overwrites an earlier one; and the \<^verbatim>\<open>forEach\<close> that stops at
  the first kind the other union lacks.
\<close>

definition withKinds :: "heap \<Rightarrow> ref list \<Rightarrow> error + (string \<times> ref) list" where
  "withKinds h ts =
     (if \<forall>t \<in> set ts. t < length h then Inr (map (\<lambda>t. (kind (h ! t), t)) ts) else Inl Dangling)"

definition otherByKind :: "(string \<times> ref) list \<Rightarrow> string \<Rightarrow> ref option" where
  "otherByKind others = fold (\<lambda>(k, t) m. m(k \<mapsto> t)) others Map.empty"

fun unionQueue :: "(string \<times> ref) list \<Rightarrow> (string \<Rightarrow> ref option) \<Rightarrow> (ref \<times> ref) list" where
  "unionQueue [] byKind = []"
| "unionQueue ((k, t) # ts) byKind =
     (case byKind k of
        None \<Rightarrow> []
      | Some otherT \<Rightarrow> (t, otherT) # unionQueue ts byKind)"

text \<open>
  \<^verbatim>\<open>names.equals(other.names)\<close> and \<^verbatim>\<open>cases.equals(other.cases)\<close> compare two
  \<^verbatim>\<open>OrderedSet<string>\<close>: Immutable.js compares ordered collections element by element
  in iteration order, which is equality of the lists.
\<close>

definition expandForEquality :: "heap \<Rightarrow> ref \<Rightarrow> ref \<Rightarrow> error + expansion" where
  "expandForEquality h this other =
     (case nodeAt h this of
        None \<Rightarrow> Inl Dangling
      | Some thisNode \<Rightarrow>
     (case nodeAt h other of
        None \<Rightarrow> Inl Dangling
      | Some otherNode \<Rightarrow>
     (case thisNode of
        PrimitiveType k \<Rightarrow>
          (case otherNode of
             PrimitiveType k' \<Rightarrow> Inr (Result (primitiveKindName k = primitiveKindName k'))
           | _ \<Rightarrow> Inr (Result False))
      | ArrayType items \<Rightarrow>
          (case otherNode of
             ArrayType items' \<Rightarrow> Inr (Queue [(items, items')])
           | _ \<Rightarrow> Inr (Result False))
      | MapType values \<Rightarrow>
          (case otherNode of
             MapType values' \<Rightarrow> Inr (Queue [(values, values')])
           | _ \<Rightarrow> Inr (Result False))
      | ClassType c \<Rightarrow>
          (case otherNode of
             ClassType c' \<Rightarrow>
               if p_names c \<noteq> p_names c' then Inr (Result False)
               else
                 (case properties c of
                    Inl e \<Rightarrow> Inl e
                  | Inr props \<Rightarrow>
                      (case properties c' of
                         Inl e \<Rightarrow> Inl e
                       | Inr props' \<Rightarrow>
                           if length props \<noteq> length props' then Inr (Result False)
                           else if length props = 0 then Inr (Result True)
                           else
                             let queue = classQueue props props'
                             in if length queue \<noteq> length props then Inr (Result False)
                                else Inr (Queue queue)))
           | _ \<Rightarrow> Inr (Result False))
      | EnumType e \<Rightarrow>
          (case otherNode of
             EnumType e' \<Rightarrow>
               Inr (Result (p_names e = p_names e' \<and> enumCases e = enumCases e'))
           | _ \<Rightarrow> Inr (Result False))
      | UnionType u \<Rightarrow>
          (case otherNode of
             UnionType u' \<Rightarrow>
               if p_names u \<noteq> p_names u' then Inr (Result False)
               else if length (members u) \<noteq> length (members u') then Inr (Result False)
               else if length (members u) = 0 then Inr (Result True)
               else
                 (case withKinds h (members u') of
                    Inl e \<Rightarrow> Inl e
                  | Inr others \<Rightarrow>
                      (case withKinds h (members u) of
                         Inl e \<Rightarrow> Inl e
                       | Inr mine \<Rightarrow>
                           let queue = unionQueue mine (otherByKind others)
                           in if length queue \<noteq> length (members u) then Inr (Result False)
                              else Inr (Queue queue)))
           | _ \<Rightarrow> Inr (Result False)))))"

subsection \<open>typesEqual (l. 402-436)\<close>

text \<open>
  \<^verbatim>\<open>alreadySeenByHash\<close> maps the decimal string of a hash to a list of pairs; the string
  of a 32-bit integer determines it, so the map is keyed by the hash. \<open>alreadySeen\<close>
  returns its result and the updated map.
\<close>

type_synonym seenByHash = "32 word \<Rightarrow> (ref \<times> ref) list option"

definition alreadySeen ::
  "hashing \<Rightarrow> nat \<Rightarrow> heap \<Rightarrow> seenByHash \<Rightarrow> ref \<times> ref \<Rightarrow> (bool \<times> seenByHash) result" where
  "alreadySeen H n h alreadySeenByHash types =
     andThen (hashCode H n h (fst types)) (\<lambda>hash.
       case alreadySeenByHash hash of
         Some pairs \<Rightarrow>
           if list_ex (\<lambda>(o1, o2). o1 = fst types \<and> o2 = snd types) pairs
           then ok (True, alreadySeenByHash)
           else ok (False, alreadySeenByHash(hash \<mapsto> pairs @ [types]))
       | None \<Rightarrow> ok (False, alreadySeenByHash(hash \<mapsto> [types])))"

text \<open>
  The loop \<^verbatim>\<open>for (;;)\<close>. The array \<^verbatim>\<open>queue\<close> is used as a stack (\<^verbatim>\<open>pop\<close> and
  \<^verbatim>\<open>push\<close> work at its end): the list holds it from its end, so the head of the list is
  the pair that \<^verbatim>\<open>pop\<close> returns, and pushing the pairs \<open>ps\<close> in order puts \<open>rev ps\<close> in
  front.
\<close>

fun typesEqualLoop ::
  "hashing \<Rightarrow> nat \<Rightarrow> heap \<Rightarrow> (ref \<times> ref) list \<Rightarrow> seenByHash \<Rightarrow> bool result" where
  "typesEqualLoop H 0 h queue alreadySeenByHash = None"
| "typesEqualLoop H (Suc n) h [] alreadySeenByHash = ok True"
| "typesEqualLoop H (Suc n) h ((t1, t2) # queue) alreadySeenByHash =
     (if t1 = t2 then typesEqualLoop H n h queue alreadySeenByHash
      else
        andThen (alreadySeen H n h alreadySeenByHash (t1, t2)) (\<lambda>(seen, alreadySeenByHash').
          if seen then typesEqualLoop H n h queue alreadySeenByHash'
          else
            (case expandForEquality h t1 t2 of
               Inl e \<Rightarrow> fault e
             | Inr (Result queueOrResult) \<Rightarrow>
                 if \<not> queueOrResult then ok False
                 else typesEqualLoop H n h queue alreadySeenByHash'
             | Inr (Queue queueOrResult) \<Rightarrow>
                 typesEqualLoop H n h (rev queueOrResult @ queue) alreadySeenByHash')))"

definition typesEqual :: "hashing \<Rightarrow> nat \<Rightarrow> heap \<Rightarrow> ref \<Rightarrow> ref \<Rightarrow> bool result" where
  "typesEqual H n h t1 t2 =
     (if t1 = t2 then ok True
      else
        (case expandForEquality h t1 t2 of
           Inl e \<Rightarrow> fault e
         | Inr (Result queueOrResult) \<Rightarrow> ok queueOrResult
         | Inr (Queue queueOrResult) \<Rightarrow> typesEqualLoop H n h (rev queueOrResult) Map.empty))"

subsection \<open>equals (Type.equals, l. 30-32, and UnionType.equals, l. 365-368)\<close>

text \<open>
  Immutable.js compares the elements of its collections with \<^verbatim>\<open>Immutable.is\<close>: two
  objects are the same element when they are identical, or when both define \<^verbatim>\<open>equals\<close>
  and \<^verbatim>\<open>hashCode\<close> and \<^verbatim>\<open>a.equals(b)\<close> holds. Type defines both methods (l. 30-38), so the
  collections of nodes (\<^verbatim>\<open>OrderedSet<Type>\<close>, \<^verbatim>\<open>Set<Type>\<close>) compare nodes with
  \<^verbatim>\<open>equals\<close>. \<open>isSame eq a b\<close> is \<^verbatim>\<open>Immutable.is(a, b)\<close> for an \<^verbatim>\<open>equals\<close> \<open>eq\<close>.

  \<^verbatim>\<open>members.equals(other.members)\<close> compares two ordered sets: their sizes, then their
  elements pairwise in iteration order, up to the first pair that differs.
\<close>

definition isSame :: "(ref \<Rightarrow> ref \<Rightarrow> bool result) \<Rightarrow> ref \<Rightarrow> ref \<Rightarrow> bool result" where
  "isSame eq a b = (if a = b then ok True else eq a b)"

fun everyPair :: "(ref \<Rightarrow> ref \<Rightarrow> bool result) \<Rightarrow> ref list \<Rightarrow> ref list \<Rightarrow> bool result" where
  "everyPair eq (a # as) (b # bs) =
     andThen (isSame eq a b) (\<lambda>same. if same then everyPair eq as bs else ok False)"
| "everyPair eq as bs = ok True"

definition orderedSetEquals ::
  "(ref \<Rightarrow> ref \<Rightarrow> bool result) \<Rightarrow> ref list \<Rightarrow> ref list \<Rightarrow> bool result" where
  "orderedSetEquals eq a b = (if length a \<noteq> length b then ok False else everyPair eq a b)"

fun equals :: "hashing \<Rightarrow> nat \<Rightarrow> heap \<Rightarrow> ref \<Rightarrow> ref \<Rightarrow> bool result" where
  "equals H 0 h this other = None"
| "equals H (Suc n) h this other =
     (case nodeAt h this of
        None \<Rightarrow> fault Dangling
      | Some (UnionType u) \<Rightarrow>
          (case nodeAt h other of
             None \<Rightarrow> fault Dangling
           | Some (UnionType u') \<Rightarrow>
               if p_names u = p_names u'
               then orderedSetEquals (equals H n h) (members u) (members u')
               else ok False
           | Some _ \<Rightarrow> ok False)
      | Some _ \<Rightarrow> typesEqual H n h this other)"

declare equals.simps [simp del]

subsection \<open>The maps of Immutable.js: get and set\<close>

text \<open>
  The library compares a key with a key it holds by \<^verbatim>\<open>is(key, held)\<close>, and hashes a key
  by \<^verbatim>\<open>hash(key)\<close>, which calls the \<^verbatim>\<open>hashCode\<close> of the key. Both are parameters here:
  \<open>eq\<close> is the \<^verbatim>\<open>equals\<close> of the keys and \<open>hs\<close> their hash. Either may throw or not
  return.

  The loop of \<^verbatim>\<open>ArrayMapNode\<close> and \<^verbatim>\<open>HashCollisionNode\<close> that looks for the first entry
  whose key is the key given:
\<close>

fun findKey :: "(ref \<Rightarrow> ref \<Rightarrow> bool result) \<Rightarrow> ref \<Rightarrow> (ref \<times> 'v) list \<Rightarrow> nat option result" where
  "findKey eq key [] = ok None"
| "findKey eq key (entry # entries) =
     andThen (isSame eq key (fst entry)) (\<lambda>same.
       if same then ok (Some 0)
       else andThen (findKey eq key entries) (\<lambda>idx. ok (map_option Suc idx)))"

text \<open>
  The entries after \<^verbatim>\<open>set\<close>, when the key was looked for with result \<open>idx\<close>: an entry with
  the key and the very value given is left as it is; an entry with the key and another
  value is replaced by the key and the value given; a new entry is pushed.
\<close>

definition putEntry :: "(ref \<times> 'v) list \<Rightarrow> nat option \<Rightarrow> ref \<Rightarrow> 'v \<Rightarrow> (ref \<times> 'v) list" where
  "putEntry entries idx key v =
     (case idx of
        Some i \<Rightarrow> if snd (entries ! i) = v then entries else entries[i := (key, v)]
      | None \<Rightarrow> entries @ [(key, v)])"

text \<open>
  \<^verbatim>\<open>(shift === 0 ? keyHash : keyHash >>> shift) & MASK\<close>: the 5 bits of the hash at
  \<open>shift\<close>. JavaScript shifts by \<open>shift\<close> modulo 32.
\<close>

definition fragment :: "nat \<Rightarrow> 32 word \<Rightarrow> nat" where
  "fragment shift keyHash = unat (take_bit 5 (drop_bit (shift mod 32) keyHash))"

fun keyHashOf :: "'v trieNode \<Rightarrow> 32 word" where
  "keyHashOf (ValueNode keyHash entry) = keyHash"
| "keyHashOf (HashCollisionNode keyHash entries) = keyHash"
| "keyHashOf (BitmapIndexedNode nodes) = 0"

fun heldEntries :: "'v trieNode \<Rightarrow> (ref \<times> 'v) list" where
  "heldEntries (ValueNode keyHash entry) = [entry]"
| "heldEntries (HashCollisionNode keyHash entries) = entries"
| "heldEntries (BitmapIndexedNode nodes) = []"

text \<open>
  \<^verbatim>\<open>mergeIntoNode(node, ownerID, shift, keyHash, entry)\<close>: a node that holds \<open>node\<close>, which
  is a \<^verbatim>\<open>ValueNode\<close> or a \<^verbatim>\<open>HashCollisionNode\<close> of another hash, and the new entry. The
  library recurses while the two hashes have the same fragment; two different 32-bit
  hashes differ in one of the fragments at the shifts 0, 5, ..., 30, so the recursion
  ends there at the latest, and the test \<open>30 < shift\<close>, which the library does not make,
  never holds when the function is called from shift 0.
\<close>

function mergeIntoNode :: "'v trieNode \<Rightarrow> nat \<Rightarrow> 32 word \<Rightarrow> ref \<times> 'v \<Rightarrow> 'v trieNode" where
  "mergeIntoNode node shift keyHash entry =
     (if keyHashOf node = keyHash \<or> 30 < shift
      then HashCollisionNode keyHash (heldEntries node @ [entry])
      else
        let idx1 = fragment shift (keyHashOf node);
            idx2 = fragment shift keyHash
        in if idx1 = idx2
           then BitmapIndexedNode [(idx1, mergeIntoNode node (shift + 5) keyHash entry)]
           else if idx1 < idx2
           then BitmapIndexedNode [(idx1, node), (idx2, ValueNode keyHash entry)]
           else BitmapIndexedNode [(idx2, ValueNode keyHash entry), (idx1, node)])"
  by pat_completeness auto
termination
  by (relation "measure (\<lambda>(node, shift, keyHash, entry). 36 - shift)") auto

declare mergeIntoNode.simps [simp del]

text \<open>
  The hash of the key at a node: the caller passes it down once it is computed
  (\<^verbatim>\<open>if (keyHash === undefined) keyHash = hash(key)\<close>).
\<close>

definition hashOfKey :: "(ref \<Rightarrow> 32 word result) \<Rightarrow> 32 word option \<Rightarrow> ref \<Rightarrow> 32 word result" where
  "hashOfKey hs keyHash key = (case keyHash of None \<Rightarrow> hs key | Some kh \<Rightarrow> ok kh)"

text \<open>\<^verbatim>\<open>get\<close> of the three kinds of nodes of the trie.\<close>

function trieGet ::
  "(ref \<Rightarrow> ref \<Rightarrow> bool result) \<Rightarrow> (ref \<Rightarrow> 32 word result) \<Rightarrow> 'v trieNode \<Rightarrow> nat \<Rightarrow>
   32 word option \<Rightarrow> ref \<Rightarrow> 'v option result" where
  "trieGet eq hs (ValueNode kh entry) shift keyHash key =
     andThen (isSame eq key (fst entry)) (\<lambda>same. ok (if same then Some (snd entry) else None))"
| "trieGet eq hs (HashCollisionNode kh entries) shift keyHash key =
     andThen (findKey eq key entries) (\<lambda>idx. ok (map_option (\<lambda>i. snd (entries ! i)) idx))"
| "trieGet eq hs (BitmapIndexedNode nodes) shift keyHash key =
     (case hashOfKey hs keyHash key of
        None \<Rightarrow> None
      | Some (Inl e) \<Rightarrow> Some (Inl e)
      | Some (Inr kh) \<Rightarrow>
          (case map_of nodes (fragment shift kh) of
             None \<Rightarrow> ok None
           | Some node \<Rightarrow> trieGet eq hs node (shift + 5) (Some kh) key))"
  by pat_completeness auto
termination
proof (relation "measure (\<lambda>(eq, hs, node, shift, keyHash, key). size node)")
  show "wf (measure (\<lambda>(eq, hs, node, shift, keyHash, key). size node))" by simp
next
  fix eq :: "ref \<Rightarrow> ref \<Rightarrow> bool result" and hs :: "ref \<Rightarrow> 32 word result"
    and nodes :: "(nat \<times> 'v trieNode) list" and shift :: nat and keyHash :: "32 word option"
    and key :: ref and kh :: "32 word" and node :: "'v trieNode"
  assume "map_of nodes (fragment shift kh) = Some node"
  then have "(fragment shift kh, node) \<in> set nodes" by (rule map_of_SomeD)
  then have "size node < Suc (size_list (size_prod (\<lambda>x. 0) size) nodes)"
    by (induction nodes) auto
  then show "((eq, hs, node, shift + 5, Some kh, key),
              (eq, hs, BitmapIndexedNode nodes, shift, keyHash, key))
            \<in> measure (\<lambda>(eq, hs, node, shift, keyHash, key). size node)"
    by simp
qed

text \<open>
  \<^verbatim>\<open>update\<close> of the three kinds of nodes, for a value to set. A \<^verbatim>\<open>ValueNode\<close> compares
  the key with its own first and hashes the key when they differ; the two other nodes
  hash the key first.
\<close>

definition insertNode :: "nat \<Rightarrow> 'v trieNode \<Rightarrow> (nat \<times> 'v trieNode) list \<Rightarrow> (nat \<times> 'v trieNode) list" where
  "insertNode idx node nodes = insort_key fst (idx, node) nodes"

definition replaceNode :: "nat \<Rightarrow> 'v trieNode \<Rightarrow> (nat \<times> 'v trieNode) list \<Rightarrow> (nat \<times> 'v trieNode) list" where
  "replaceNode idx node nodes = map (\<lambda>(i, n). if i = idx then (i, node) else (i, n)) nodes"

function trieUpdate ::
  "(ref \<Rightarrow> ref \<Rightarrow> bool result) \<Rightarrow> (ref \<Rightarrow> 32 word result) \<Rightarrow> 'v trieNode \<Rightarrow> nat \<Rightarrow>
   32 word option \<Rightarrow> ref \<Rightarrow> 'v \<Rightarrow> 'v trieNode result" where
  "trieUpdate eq hs (ValueNode kh entry) shift keyHash key v =
     andThen (isSame eq key (fst entry)) (\<lambda>keyMatch.
       if keyMatch then ok (if v = snd entry then ValueNode kh entry else ValueNode kh (key, v))
       else andThen (hs key) (\<lambda>h. ok (mergeIntoNode (ValueNode kh entry) shift h (key, v))))"
| "trieUpdate eq hs (HashCollisionNode kh entries) shift keyHash key v =
     andThen (hashOfKey hs keyHash key) (\<lambda>h.
       if h \<noteq> kh then ok (mergeIntoNode (HashCollisionNode kh entries) shift h (key, v))
       else andThen (findKey eq key entries) (\<lambda>idx.
              ok (HashCollisionNode kh (putEntry entries idx key v))))"
| "trieUpdate eq hs (BitmapIndexedNode nodes) shift keyHash key v =
     (case hashOfKey hs keyHash key of
        None \<Rightarrow> None
      | Some (Inl e) \<Rightarrow> Some (Inl e)
      | Some (Inr h) \<Rightarrow>
          (case map_of nodes (fragment shift h) of
             None \<Rightarrow>
               ok (BitmapIndexedNode (insertNode (fragment shift h) (ValueNode h (key, v)) nodes))
           | Some node \<Rightarrow>
               (case trieUpdate eq hs node (shift + 5) (Some h) key v of
                  None \<Rightarrow> None
                | Some (Inl e) \<Rightarrow> Some (Inl e)
                | Some (Inr newNode) \<Rightarrow>
                    ok (BitmapIndexedNode (replaceNode (fragment shift h) newNode nodes)))))"
  by pat_completeness auto
termination
proof (relation "measure (\<lambda>(eq, hs, node, shift, keyHash, key, v). size node)")
  show "wf (measure (\<lambda>(eq, hs, node, shift, keyHash, key, v). size node))" by simp
next
  fix eq :: "ref \<Rightarrow> ref \<Rightarrow> bool result" and hs :: "ref \<Rightarrow> 32 word result"
    and nodes :: "(nat \<times> 'v trieNode) list" and shift :: nat and keyHash :: "32 word option"
    and key :: ref and v :: 'v and h :: "32 word" and node :: "'v trieNode"
  assume "map_of nodes (fragment shift h) = Some node"
  then have "(fragment shift h, node) \<in> set nodes" by (rule map_of_SomeD)
  then have "size node < Suc (size_list (size_prod (\<lambda>x. 0) size) nodes)"
    by (induction nodes) auto
  then show "((eq, hs, node, shift + 5, Some h, key, v),
              (eq, hs, BitmapIndexedNode nodes, shift, keyHash, key, v))
            \<in> measure (\<lambda>(eq, hs, node, shift, keyHash, key, v). size node)"
    by simp
qed

text \<open>
  \<^verbatim>\<open>Map.get\<close> and \<^verbatim>\<open>Map.set\<close>. An \<^verbatim>\<open>ArrayMapNode\<close> that holds 8 entries and gets a new
  key becomes a trie (\<^verbatim>\<open>createNodes\<close>): the new key is hashed, and each entry held is set
  in the trie, its key compared and hashed on the way.
\<close>

definition mapGet ::
  "(ref \<Rightarrow> ref \<Rightarrow> bool result) \<Rightarrow> (ref \<Rightarrow> 32 word result) \<Rightarrow> 'v mapNode option \<Rightarrow> ref \<Rightarrow>
   'v option result" where
  "mapGet eq hs root key =
     (case root of
        None \<Rightarrow> ok None
      | Some (ArrayMapNode entries) \<Rightarrow>
          andThen (findKey eq key entries) (\<lambda>idx. ok (map_option (\<lambda>i. snd (entries ! i)) idx))
      | Some (TrieNode node) \<Rightarrow> trieGet eq hs node 0 None key)"

definition createNodes ::
  "(ref \<Rightarrow> ref \<Rightarrow> bool result) \<Rightarrow> (ref \<Rightarrow> 32 word result) \<Rightarrow> (ref \<times> 'v) list \<Rightarrow> ref \<Rightarrow> 'v \<Rightarrow>
   'v trieNode result" where
  "createNodes eq hs entries key v =
     andThen (hs key) (\<lambda>h.
       forEachAcc (\<lambda>entry node. trieUpdate eq hs node 0 None (fst entry) (snd entry))
         entries (ValueNode h (key, v)))"

definition mapSet ::
  "(ref \<Rightarrow> ref \<Rightarrow> bool result) \<Rightarrow> (ref \<Rightarrow> 32 word result) \<Rightarrow> 'v mapNode option \<Rightarrow> ref \<Rightarrow> 'v \<Rightarrow>
   'v mapNode option result" where
  "mapSet eq hs root key v =
     (case root of
        None \<Rightarrow> ok (Some (ArrayMapNode [(key, v)]))
      | Some (ArrayMapNode entries) \<Rightarrow>
          andThen (findKey eq key entries) (\<lambda>idx.
            if idx = None \<and> length entries \<ge> 8
            then andThen (createNodes eq hs entries key v) (\<lambda>node. ok (Some (TrieNode node)))
            else ok (Some (ArrayMapNode (putEntry entries idx key v))))
      | Some (TrieNode node) \<Rightarrow>
          andThen (trieUpdate eq hs node 0 None key v) (\<lambda>node'. ok (Some (TrieNode node'))))"

subsection \<open>Set<Type> and OrderedSet<Type>\<close>

text \<open>
  The keys are nodes: \<^verbatim>\<open>is\<close> calls the \<^verbatim>\<open>equals\<close> of the node looked for, and \<^verbatim>\<open>hash\<close>
  its \<^verbatim>\<open>hashCode\<close>.
\<close>

definition hashOfNode :: "hashing \<Rightarrow> nat \<Rightarrow> heap \<Rightarrow> ref \<Rightarrow> 32 word result" where
  "hashOfNode H n h t = andThen (hashCode H n h t) (\<lambda>c. ok (immutableHash H c))"

text \<open>\<^verbatim>\<open>Set.has\<close> and \<^verbatim>\<open>Set.add\<close>: \<^verbatim>\<open>add(value)\<close> is \<^verbatim>\<open>set(value, value)\<close> on the map.\<close>

definition typeSet_has :: "hashing \<Rightarrow> nat \<Rightarrow> heap \<Rightarrow> typeSet \<Rightarrow> ref \<Rightarrow> bool result" where
  "typeSet_has H n h s t =
     andThen (mapGet (equals H n h) (hashOfNode H n h) s t) (\<lambda>r. ok (r \<noteq> None))"

definition typeSet_add :: "hashing \<Rightarrow> nat \<Rightarrow> heap \<Rightarrow> typeSet \<Rightarrow> ref \<Rightarrow> typeSet result" where
  "typeSet_add H n h s t = mapSet (equals H n h) (hashOfNode H n h) s t t"

text \<open>
  \<^verbatim>\<open>OrderedSet.add\<close>, which is \<^verbatim>\<open>set(value, value)\<close> on an \<^verbatim>\<open>OrderedMap\<close>
  (\<^verbatim>\<open>updateOrderedMap\<close>): the position of the value is looked up in the map; a value found
  takes the place, in the list, of the element at that position, unless it is that very
  element; a value not found is set in the map, with the next position, and pushed on the
  list.
\<close>

definition nodeSet_add :: "hashing \<Rightarrow> nat \<Rightarrow> heap \<Rightarrow> orderedSet \<Rightarrow> ref \<Rightarrow> orderedSet result" where
  "nodeSet_add H n h s t =
     andThen (mapGet (equals H n h) (hashOfNode H n h) (oMap s) t) (\<lambda>pos.
       case pos of
         Some i \<Rightarrow>
           if \<not> i < length (oList s) then fault TypeError
           else if oList s ! i = t then ok s
           else ok (s\<lparr>oList := (oList s)[i := t]\<rparr>)
       | None \<Rightarrow>
           andThen (mapSet (equals H n h) (hashOfNode H n h) (oMap s) t (length (oList s)))
             (\<lambda>m. ok \<lparr>oMap = m, oList = oList s @ [t]\<rparr>))"

text \<open>
  \<^verbatim>\<open>OrderedSet(sequence)\<close>, and the sets that \<^verbatim>\<open>toOrderedSet\<close>, \<^verbatim>\<open>filterNot\<close> and \<^verbatim>\<open>sortBy\<close>
  build: the elements are added to the empty set one by one.
\<close>

definition emptyOrderedSet :: orderedSet where
  "emptyOrderedSet = \<lparr>oMap = None, oList = []\<rparr>"

definition nodeSet_of :: "hashing \<Rightarrow> nat \<Rightarrow> heap \<Rightarrow> ref list \<Rightarrow> orderedSet result" where
  "nodeSet_of H n h ts = forEachAcc (\<lambda>t s. nodeSet_add H n h s t) ts emptyOrderedSet"

subsection \<open>UnionType: construction; removeNullFromUnion, makeNullable, removeNull\<close>

text \<open>The constructor of UnionType, with its \<^verbatim>\<open>assert(members.size > 1)\<close>.\<close>

definition new_UnionType ::
  "heap \<Rightarrow> nameOrNames \<Rightarrow> bool \<Rightarrow> orderedSet \<Rightarrow> (ref \<times> heap) result" where
  "new_UnionType h names areNamesInferred ms =
     (if \<not> length (oList ms) > 1 then fault AssertionFailed
      else ok (alloc h (UnionType \<lparr>p_names = namesOf names,
                                   p_areNamesInferred = areNamesInferred,
                                   members = oList ms, membersMap = oMap ms\<rparr>)))"

text \<open>
  \<^verbatim>\<open>findMember(kind)\<close> is the first member of the kind; \<^verbatim>\<open>isNull(t)\<close> is
  \<^verbatim>\<open>t.kind === "null"\<close>.
\<close>

definition findMember :: "heap \<Rightarrow> unionType \<Rightarrow> string \<Rightarrow> error + ref option" where
  "findMember h u k =
     (case withKinds h (members u) of
        Inl e \<Rightarrow> Inl e
      | Inr ks \<Rightarrow> Inr (map_option snd (find (\<lambda>(k', t). k' = k) ks)))"

text \<open>
  \<^verbatim>\<open>removeNullFromUnion\<close>: without a null member the result holds the member set of the
  union itself; otherwise \<^verbatim>\<open>filterNot\<close> builds a set of the other members
  (\<^verbatim>\<open>toOrderedSet\<close> returns an ordered set as it is).
\<close>

definition removeNullFromUnion ::
  "hashing \<Rightarrow> nat \<Rightarrow> heap \<Rightarrow> unionType \<Rightarrow> (ref option \<times> orderedSet) result" where
  "removeNullFromUnion H n h t =
     andThen (lift (findMember h t ''null'')) (\<lambda>nullType.
       case nullType of
         None \<Rightarrow> ok (None, memberSet t)
       | Some nt \<Rightarrow>
           andThen (lift (withKinds h (members t))) (\<lambda>ks.
           andThen (nodeSet_of H n h (map snd (filter (\<lambda>(k, t). k \<noteq> ''null'') ks)))
             (\<lambda>nonNulls. ok (Some nt, nonNulls))))"

definition nullableFromUnion :: "hashing \<Rightarrow> nat \<Rightarrow> heap \<Rightarrow> unionType \<Rightarrow> ref option result" where
  "nullableFromUnion H n h t =
     andThen (removeNullFromUnion H n h t) (\<lambda>(hasNull, nonNulls).
       if hasNull = None then ok None
       else if length (oList nonNulls) \<noteq> 1 then ok None
       else ok (Some (hd (oList nonNulls))))"

definition makeNullable ::
  "hashing \<Rightarrow> nat \<Rightarrow> heap \<Rightarrow> ref \<Rightarrow> nameOrNames \<Rightarrow> bool \<Rightarrow> (ref \<times> heap) result" where
  "makeNullable H n h t typeNames areNamesInferred =
     (case nodeAt h t of
        None \<Rightarrow> fault Dangling
      | Some node \<Rightarrow>
          if kind node = ''null'' then ok (t, h)
          else
            (case node of
               UnionType u \<Rightarrow>
                 andThen (removeNullFromUnion H n h u) (\<lambda>(maybeNull, nonNulls).
                   if maybeNull \<noteq> None then ok (t, h)
                   else
                     (case alloc h (PrimitiveType KNull) of
                        (nullT, h1) \<Rightarrow>
                          andThen (nodeSet_add H n h1 nonNulls nullT) (\<lambda>ms.
                            new_UnionType h1 typeNames areNamesInferred ms)))
             | _ \<Rightarrow>
                 (case alloc h (PrimitiveType KNull) of
                    (nullT, h1) \<Rightarrow>
                      andThen (nodeSet_of H n h1 [t, nullT]) (\<lambda>ms.
                        new_UnionType h1 typeNames areNamesInferred ms))))"

definition removeNull :: "hashing \<Rightarrow> nat \<Rightarrow> heap \<Rightarrow> ref \<Rightarrow> (ref \<times> heap) result" where
  "removeNull H n h t =
     (case nodeAt h t of
        None \<Rightarrow> fault Dangling
      | Some (UnionType u) \<Rightarrow>
          andThen (removeNullFromUnion H n h u) (\<lambda>(_, nonNulls).
            case oList nonNulls of
              first # _ \<Rightarrow>
                if length (oList nonNulls) = 1 then ok (first, h)
                else new_UnionType h (Names (p_names u)) (p_areNamesInferred u) nonNulls
            | [] \<Rightarrow> fault (Panic ''Trying to remove null results in empty union.''))
      | Some _ \<Rightarrow> ok (t, h))"

subsection \<open>children (l. 19, 48, 81, 112, 253, 307, 341)\<close>

text \<open>
  \<^verbatim>\<open>sortedProperties\<close>: the keys sorted (JavaScript compares strings by their code
  units, lexicographically: the order of \<^typ>\<open>string\<close> here), each with its property.
  \<^verbatim>\<open>children\<close> of a class is the ordered set of the values, in that order.
\<close>

fun entriesOf :: "properties \<Rightarrow> string list \<Rightarrow> error + properties" where
  "entriesOf props [] = Inr []"
| "entriesOf props (k # ks) =
     (case map_of props k of
        None \<Rightarrow> Inl NotDefined
      | Some t \<Rightarrow> (case entriesOf props ks of Inl e \<Rightarrow> Inl e | Inr es \<Rightarrow> Inr ((k, t) # es)))"

definition sortedProperties :: "classType \<Rightarrow> error + properties" where
  "sortedProperties this =
     (case properties this of
        Inl e \<Rightarrow> Inl e
      | Inr props \<Rightarrow> entriesOf props (sort (map fst props)))"

text \<open>
  \<^verbatim>\<open>sortedMembers\<close>: \<^verbatim>\<open>members.sortBy(t => t.kind)\<close>, a stable sort, of which
  Immutable.js builds an ordered set again.
\<close>

definition sortedMembers :: "hashing \<Rightarrow> nat \<Rightarrow> heap \<Rightarrow> unionType \<Rightarrow> orderedSet result" where
  "sortedMembers H n h this =
     andThen (lift (withKinds h (members this))) (\<lambda>ks.
       nodeSet_of H n h (map snd (sort_key fst ks)))"

definition children :: "hashing \<Rightarrow> nat \<Rightarrow> heap \<Rightarrow> ref \<Rightarrow> orderedSet result" where
  "children H n h this =
     (case nodeAt h this of
        None \<Rightarrow> fault Dangling
      | Some (PrimitiveType k) \<Rightarrow> ok emptyOrderedSet
      | Some (ArrayType items) \<Rightarrow> nodeSet_of H n h [items]
      | Some (MapType values) \<Rightarrow> nodeSet_of H n h [values]
      | Some (ClassType c) \<Rightarrow>
          andThen (lift (sortedProperties c)) (\<lambda>sorted.
            nodeSet_of H n h (map snd sorted))
      | Some (EnumType e) \<Rightarrow> ok emptyOrderedSet
      | Some (UnionType u) \<Rightarrow> sortedMembers H n h u)"

subsection \<open>filterTypes (l. 487-508)\<close>

text \<open>
  The variables \<^verbatim>\<open>seen\<close> and \<^verbatim>\<open>types\<close> that the closure \<^verbatim>\<open>addFromType\<close> updates are
  the state. \<^verbatim>\<open>seen\<close> is a \<^verbatim>\<open>Set<Type>\<close> of Immutable.js: it compares a node with the
  nodes it holds by \<^verbatim>\<open>Immutable.is\<close>, that is by \<^verbatim>\<open>equals\<close>, and hashes the nodes once it
  holds more than 8. The field \<open>calls\<close> is not a variable of the source: it records the arguments of the
  calls of the predicate, in order, so that the calls can be counted.
\<close>

record filterState =
  seen :: typeSet
  types :: "ref list"
  calls :: "ref list"

text \<open>
  \<open>childrenOfType\<close> is the optional parameter: \<open>None\<close> when it is omitted.
\<close>

fun addFromType ::
  "hashing \<Rightarrow> nat \<Rightarrow> heap \<Rightarrow> (ref \<Rightarrow> bool) \<Rightarrow> (ref \<Rightarrow> ref list) option \<Rightarrow>
   ref \<Rightarrow> filterState \<Rightarrow> filterState result" where
  "addFromType H 0 h predicate childrenOfType t st = None"
| "addFromType H (Suc n) h predicate childrenOfType t st =
     andThen (typeSet_has H n h (seen st) t) (\<lambda>has.
       if has then ok st
       else
         andThen (typeSet_add H n h (seen st) t) (\<lambda>seen'.
         andThen (case childrenOfType of
                    Some f \<Rightarrow> ok (f t)
                  | None \<Rightarrow> andThen (children H n h t) (\<lambda>s. ok (oList s))) (\<lambda>cs.
         andThen (forEachAcc (addFromType H n h predicate childrenOfType) cs
                    (st\<lparr>seen := seen'\<rparr>)) (\<lambda>st'.
           if predicate t
           then ok (st'\<lparr>types := types st' @ [t], calls := calls st' @ [t]\<rparr>)
           else ok (st'\<lparr>calls := calls st' @ [t]\<rparr>)))))"

text \<open>\<^verbatim>\<open>graph.forEach(addFromType)\<close>, from the empty state.\<close>

definition walk ::
  "hashing \<Rightarrow> nat \<Rightarrow> heap \<Rightarrow> (ref \<Rightarrow> bool) \<Rightarrow> (string \<times> ref) list \<Rightarrow>
   (ref \<Rightarrow> ref list) option \<Rightarrow> filterState result" where
  "walk H n h predicate graph childrenOfType =
     forEachAcc (addFromType H n h predicate childrenOfType) (map snd graph)
       \<lparr>seen = None, types = [], calls = []\<rparr>"

definition filterTypes ::
  "hashing \<Rightarrow> nat \<Rightarrow> heap \<Rightarrow> (ref \<Rightarrow> bool) \<Rightarrow> (string \<times> ref) list \<Rightarrow>
   (ref \<Rightarrow> ref list) option \<Rightarrow> orderedSet result" where
  "filterTypes H n h predicate graph childrenOfType =
     andThen (walk H n h predicate graph childrenOfType) (\<lambda>st.
       nodeSet_of H n h (rev (types st)))"

subsection \<open>Example graphs\<close>

text \<open>
  One hashing for the examples: any two functions will do, since no result below depends
  on the values of the hashes.
\<close>

definition exampleHashing :: hashing where
  "exampleHashing =
     \<lparr>stringHash = (\<lambda>s. of_nat (length s)), namesHash = (\<lambda>ns. of_nat (length ns)),
      immutableHash = (\<lambda>w. w)\<rparr>"


text \<open>
  Two classes A built independently, each with a property \<open>children\<close> whose type is an
  array of the class itself: nodes 0 and 1 are one graph, nodes 2 and 3 the other.
\<close>

definition arrayCycleHeap :: heap where
  "arrayCycleHeap =
     [ClassType \<lparr>p_names = [''A''], p_areNamesInferred = True,
                 p_properties = Some [(''children'', 1)]\<rparr>,
      ArrayType 0,
      ClassType \<lparr>p_names = [''A''], p_areNamesInferred = True,
                 p_properties = Some [(''children'', 3)]\<rparr>,
      ArrayType 2]"

text \<open>
  Two classes A built independently, each with a property \<open>next\<close> whose type is the class
  itself.
\<close>

definition selfCycleHeap :: heap where
  "selfCycleHeap =
     [ClassType \<lparr>p_names = [''A''], p_areNamesInferred = True,
                 p_properties = Some [(''next'', 0)]\<rparr>,
      ClassType \<lparr>p_names = [''A''], p_areNamesInferred = True,
                 p_properties = Some [(''next'', 1)]\<rparr>]"

text \<open>
  Two classes P with a property p whose type is a class X; the two classes X differ in the
  type of their property q.
\<close>

definition nestedDifferenceHeap :: heap where
  "nestedDifferenceHeap =
     [PrimitiveType KInteger, PrimitiveType KString,
      ClassType \<lparr>p_names = [''X''], p_areNamesInferred = True,
                 p_properties = Some [(''q'', 0)]\<rparr>,
      ClassType \<lparr>p_names = [''X''], p_areNamesInferred = True,
                 p_properties = Some [(''q'', 1)]\<rparr>,
      ClassType \<lparr>p_names = [''P''], p_areNamesInferred = True,
                 p_properties = Some [(''p'', 2)]\<rparr>,
      ClassType \<lparr>p_names = [''P''], p_areNamesInferred = True,
                 p_properties = Some [(''p'', 3)]\<rparr>]"

text \<open>A union U of integer and string.\<close>

definition unionHeap :: heap where
  "unionHeap =
     [PrimitiveType KInteger, PrimitiveType KString,
      UnionType \<lparr>p_names = [''U''], p_areNamesInferred = True, members = [0, 1],
                 membersMap = Some (ArrayMapNode [(0, 0), (1, 1)])\<rparr>]"

text \<open>Two nodes for the type string.\<close>

definition twoStringsHeap :: heap where
  "twoStringsHeap = [PrimitiveType KString, PrimitiveType KString]"

text \<open>A class with a property of its own type and a property of type string.\<close>

definition listHeap :: heap where
  "listHeap =
     [ClassType \<lparr>p_names = [''A''], p_areNamesInferred = True,
                 p_properties = Some [(''next'', 0), (''item'', 1)]\<rparr>,
      PrimitiveType KString]"

text \<open>The predicate that holds of every node.\<close>

definition everyType :: "ref \<Rightarrow> bool" where
  "everyType t = True"

text \<open>
  A union of eight members of eight kinds, two of which are a class and the array of it
  that is the type of its property.
\<close>

definition eightMembersHeap :: heap where
  "eightMembersHeap =
     [ClassType \<lparr>p_names = [''A''], p_areNamesInferred = True,
                 p_properties = Some [(''children'', 1)]\<rparr>,
      ArrayType 0,
      PrimitiveType KAny, PrimitiveType KBool, PrimitiveType KInteger, PrimitiveType KDouble,
      PrimitiveType KString,
      EnumType \<lparr>p_names = [''E''], p_areNamesInferred = True, enumCases = [''x'']\<rparr>,
      UnionType \<lparr>p_names = [''U''], p_areNamesInferred = True,
                 members = [0, 1, 2, 3, 4, 5, 6, 7],
                 membersMap = Some (ArrayMapNode
                   [(0, 0), (1, 1), (2, 2), (3, 3), (4, 4), (5, 5), (6, 6), (7, 7)])\<rparr>]"

text \<open>
  Two unions U with two members of kind enum each, and an array of each union. The enums 0
  and 1 are two objects with the same names and cases (the second one was named A after the
  union was built); the enum 2 has one more case.
\<close>

definition twoOfAKindHeap :: heap where
  "twoOfAKindHeap =
     [EnumType \<lparr>p_names = [''A''], p_areNamesInferred = True, enumCases = [''x'']\<rparr>,
      EnumType \<lparr>p_names = [''A''], p_areNamesInferred = False, enumCases = [''x'']\<rparr>,
      EnumType \<lparr>p_names = [''A''], p_areNamesInferred = True, enumCases = [''x'', ''y'']\<rparr>,
      UnionType \<lparr>p_names = [''U''], p_areNamesInferred = True, members = [0, 1],
                 membersMap = Some (ArrayMapNode [(0, 0), (1, 1)])\<rparr>,
      UnionType \<lparr>p_names = [''U''], p_areNamesInferred = True, members = [2, 0],
                 membersMap = Some (ArrayMapNode [(2, 0), (0, 1)])\<rparr>,
      ArrayType 3,
      ArrayType 4]"

text \<open>Two enums A with the cases x and y, in two orders.\<close>

definition reorderedCasesHeap :: heap where
  "reorderedCasesHeap =
     [EnumType \<lparr>p_names = [''A''], p_areNamesInferred = True, enumCases = [''x'', ''y'']\<rparr>,
      EnumType \<lparr>p_names = [''A''], p_areNamesInferred = True, enumCases = [''y'', ''x'']\<rparr>]"

text \<open>
  Twice the union U of the enums A and B, built independently, and an array of each
  union.
\<close>

definition twoEnumsUnionHeap :: heap where
  "twoEnumsUnionHeap =
     [EnumType \<lparr>p_names = [''A''], p_areNamesInferred = True, enumCases = [''x'']\<rparr>,
      EnumType \<lparr>p_names = [''B''], p_areNamesInferred = True, enumCases = [''x'']\<rparr>,
      EnumType \<lparr>p_names = [''A''], p_areNamesInferred = True, enumCases = [''x'']\<rparr>,
      EnumType \<lparr>p_names = [''B''], p_areNamesInferred = True, enumCases = [''x'']\<rparr>,
      UnionType \<lparr>p_names = [''U''], p_areNamesInferred = True, members = [0, 1],
                 membersMap = Some (ArrayMapNode [(0, 0), (1, 1)])\<rparr>,
      UnionType \<lparr>p_names = [''U''], p_areNamesInferred = True, members = [2, 3],
                 membersMap = Some (ArrayMapNode [(2, 0), (3, 1)])\<rparr>,
      ArrayType 4,
      ArrayType 5]"

subsection \<open>Well-formed heaps\<close>

text \<open>
  What the constructors and the collection types guarantee of every graph, and the
  invariant of the spec's data model for unions: the keys of a \<^verbatim>\<open>Map\<close> are distinct and
  its values are nodes; the child of an array or a map is a node; a union was constructed
  (from its members, which existed before it) with more than one member, and its members
  are of pairwise distinct kinds.
\<close>

definition wellFormed :: "heap \<Rightarrow> bool" where
  "wellFormed h \<longleftrightarrow>
     (\<forall>t < length h.
        case h ! t of
          PrimitiveType k \<Rightarrow> True
        | ArrayType items \<Rightarrow> items < length h
        | MapType values \<Rightarrow> values < length h
        | ClassType c \<Rightarrow>
            (case p_properties c of
               None \<Rightarrow> True
             | Some props \<Rightarrow> distinct (map fst props) \<and> (\<forall>p \<in> set props. snd p < length h))
        | EnumType e \<Rightarrow> True
        | UnionType u \<Rightarrow>
            length (members u) > 1 \<and> (\<forall>m \<in> set (members u). m < t) \<and>
            distinct (map (\<lambda>m. kind (h ! m)) (members u)))"

subsection \<open>Notions used in the proofs about equality\<close>

text \<open>The pairs recorded in \<^verbatim>\<open>alreadySeenByHash\<close>.\<close>

definition seenPairs :: "seenByHash \<Rightarrow> (ref \<times> ref) set" where
  "seenPairs s = {p. \<exists>k ps. s k = Some ps \<and> p \<in> set ps}"

text \<open>
  A pair passes the local check with respect to a set \<open>S\<close> of pairs when its two nodes are
  identical, or expandForEquality answers true, or it answers with pairs of \<open>S\<close>.
\<close>

definition locallyEqual :: "heap \<Rightarrow> (ref \<times> ref) set \<Rightarrow> ref \<times> ref \<Rightarrow> bool" where
  "locallyEqual h S p \<longleftrightarrow>
     fst p = snd p \<or>
     (case expandForEquality h (fst p) (snd p) of
        Inl e \<Rightarrow> False
      | Inr (Result b) \<Rightarrow> b
      | Inr (Queue ps) \<Rightarrow> set ps \<subseteq> S)"

text \<open>Two nodes on which the two hashes return the same values, with the same fuel.\<close>

definition hashAgree :: "hashing \<Rightarrow> nat \<Rightarrow> heap \<Rightarrow> ref \<Rightarrow> ref \<Rightarrow> bool" where
  "hashAgree H n h a b \<longleftrightarrow>
     (\<forall>v. flatHashCode H n h a = ok v \<longleftrightarrow> flatHashCode H n h b = ok v) \<and>
     (\<forall>v. hashCode H n h a = ok v \<longleftrightarrow> hashCode H n h b = ok v)"

text \<open>
  The value a hash returned, and two calls that return the same value when one of them
  returns.
\<close>

definition valOf :: "32 word result \<Rightarrow> 32 word" where
  "valOf r = (case r of Some (Inr x) \<Rightarrow> x | _ \<Rightarrow> 0)"

definition okEq :: "'a result \<Rightarrow> 'a result \<Rightarrow> bool" where
  "okEq r r' \<longleftrightarrow> (\<forall>v. r = ok v \<longleftrightarrow> r' = ok v)"

subsection \<open>Nodes of the same shape\<close>

text \<open>
  The spec's words, to compare with equals: two nodes denote the same shape when they are
  of the same kind and have the same recursive substructure. \<open>sameShape h R\<close> says that
  the relation \<open>R\<close> between nodes relates only nodes of the same shape: related nodes are
  of the same class; primitives are of the same kind; the children of related arrays and
  maps are related; related classes have properties of the same names, and the properties
  of one name are related; related enums have the same cases in the same order (the code
  compares the two ordered sets of cases, l. 321, and an ordered set of Immutable.js equals
  another when they hold the same elements in the same order); related unions have members
  that are related, one by one in their order. Related named nodes have the same names in
  the same order (the lists of names are equal).
\<close>

definition sameShapeStep :: "(ref \<times> ref) set \<Rightarrow> typeNode \<Rightarrow> typeNode \<Rightarrow> bool" where
  "sameShapeStep R na nb =
     (case na of
        PrimitiveType k \<Rightarrow> (case nb of PrimitiveType k' \<Rightarrow> k = k' | _ \<Rightarrow> False)
      | ArrayType items \<Rightarrow> (case nb of ArrayType items' \<Rightarrow> (items, items') \<in> R | _ \<Rightarrow> False)
      | MapType values \<Rightarrow> (case nb of MapType values' \<Rightarrow> (values, values') \<in> R | _ \<Rightarrow> False)
      | ClassType c \<Rightarrow>
          (case nb of
             ClassType c' \<Rightarrow>
               p_names c = p_names c' \<and>
               (case p_properties c of
                  None \<Rightarrow> False
                | Some props \<Rightarrow>
                    (case p_properties c' of
                       None \<Rightarrow> False
                     | Some props' \<Rightarrow>
                         set (map fst props) = set (map fst props') \<and>
                         (\<forall>p \<in> set props. \<exists>t'. map_of props' (fst p) = Some t' \<and>
                                                (snd p, t') \<in> R)))
           | _ \<Rightarrow> False)
      | EnumType e \<Rightarrow>
          (case nb of
             EnumType e' \<Rightarrow> p_names e = p_names e' \<and> enumCases e = enumCases e'
           | _ \<Rightarrow> False)
      | UnionType u \<Rightarrow>
          (case nb of
             UnionType u' \<Rightarrow>
               p_names u = p_names u' \<and>
               list_all2 (\<lambda>m m'. (m, m') \<in> R) (members u) (members u')
           | _ \<Rightarrow> False))"

definition sameShape :: "heap \<Rightarrow> (ref \<times> ref) set \<Rightarrow> bool" where
  "sameShape h R \<longleftrightarrow>
     (\<forall>p \<in> R. fst p < length h \<and> snd p < length h \<and>
               sameShapeStep R (h ! fst p) (h ! snd p))"


subsection \<open>Notions used in the proof that the work list ends\<close>


text \<open>Every recorded pair lies in the bucket of the hash of its first node.\<close>

definition bucketsHashed :: "hashing \<Rightarrow> nat \<Rightarrow> heap \<Rightarrow> seenByHash \<Rightarrow> bool" where
  "bucketsHashed H N h s \<longleftrightarrow>
     (\<forall>k ps. s k = Some ps \<longrightarrow> (\<forall>p \<in> set ps. hashCode H N h (fst p) = ok k))"

subsection \<open>Notions used in the proofs about the collections\<close>

text \<open>The keys and the entries that a map holds.\<close>

fun trieEntries :: "'v trieNode \<Rightarrow> (ref \<times> 'v) set" where
  "trieEntries (ValueNode kh entry) = {entry}"
| "trieEntries (HashCollisionNode kh entries) = set entries"
| "trieEntries (BitmapIndexedNode nodes) = (\<Union>node \<in> snd ` set nodes. trieEntries node)"

definition mapEntries :: "'v mapNode option \<Rightarrow> (ref \<times> 'v) set" where
  "mapEntries root =
     (case root of
        None \<Rightarrow> {}
      | Some (ArrayMapNode entries) \<Rightarrow> set entries
      | Some (TrieNode node) \<Rightarrow> trieEntries node)"

definition trieKeys :: "'v trieNode \<Rightarrow> ref set" where
  "trieKeys node = fst ` trieEntries node"

definition mapKeys :: "'v mapNode option \<Rightarrow> ref set" where
  "mapKeys root = fst ` mapEntries root"

text \<open>
  On the nodes \<open>V\<close>, \<open>eq\<close> returns false on every two different nodes; \<open>hs\<close> returns on
  every node.
\<close>

definition eqOK :: "(ref \<Rightarrow> ref \<Rightarrow> bool result) \<Rightarrow> ref set \<Rightarrow> bool" where
  "eqOK eq V \<longleftrightarrow> (\<forall>a \<in> V. \<forall>b \<in> V. a \<noteq> b \<longrightarrow> eq a b = ok False)"

definition hsOK :: "(ref \<Rightarrow> 32 word result) \<Rightarrow> ref set \<Rightarrow> bool" where
  "hsOK hs V \<longleftrightarrow> (\<forall>a \<in> V. \<exists>v. hs a = ok v)"

text \<open>A map that hashes the key it is given for a new entry: all but the small arrays.\<close>

definition hashesKeys :: "'v mapNode option \<Rightarrow> bool" where
  "hashesKeys root =
     (case root of
        None \<Rightarrow> False
      | Some (ArrayMapNode entries) \<Rightarrow> 8 \<le> length entries
      | Some (TrieNode node) \<Rightarrow> True)"

text \<open>
  An ordered set whose map holds the elements of its list as keys: a small map holds
  them in the order of the list.
\<close>

definition holdsElements :: "orderedSet \<Rightarrow> bool" where
  "holdsElements s =
     (case oMap s of
        None \<Rightarrow> oList s = []
      | Some (ArrayMapNode entries) \<Rightarrow> map fst entries = oList s
      | Some (TrieNode node) \<Rightarrow> trieKeys node \<subseteq> set (oList s))"

text \<open>
  A trie built from keys with the hashes \<open>hv\<close>: every node lies where the hash of its keys
  leads. \<open>mapOK hv V root\<close> is a map of keys among \<open>V\<close> that holds each key once where
  \<^verbatim>\<open>get\<close> looks for it; it is a trie only when \<open>V\<close> has more than 8 nodes.
\<close>

fun pathOK :: "(ref \<Rightarrow> 32 word) \<Rightarrow> nat \<Rightarrow> 'v trieNode \<Rightarrow> bool" where
  "pathOK hv shift (ValueNode kh entry) \<longleftrightarrow> kh = hv (fst entry)"
| "pathOK hv shift (HashCollisionNode kh entries) \<longleftrightarrow>
     entries \<noteq> [] \<and> (\<forall>e \<in> set entries. hv (fst e) = kh)"
| "pathOK hv shift (BitmapIndexedNode nodes) \<longleftrightarrow>
     distinct (map fst nodes) \<and>
     (\<forall>p \<in> set nodes.
        (\<forall>e \<in> trieEntries (snd p). fragment shift (hv (fst e)) = fst p) \<and>
        pathOK hv (shift + 5) (snd p))"

definition mapOK :: "(ref \<Rightarrow> 32 word) \<Rightarrow> ref set \<Rightarrow> 'v mapNode option \<Rightarrow> bool" where
  "mapOK hv V root \<longleftrightarrow>
     mapKeys root \<subseteq> V \<and>
     (case root of
        None \<Rightarrow> True
      | Some (ArrayMapNode entries) \<Rightarrow> distinct (map fst entries)
      | Some (TrieNode node) \<Rightarrow> pathOK hv 0 node \<and> 8 < card V)"

text \<open>
  The keys of a node of the trie at \<open>shift\<close> have the fragments of the hash \<open>h\<close> below
  \<open>shift\<close>.
\<close>

definition agrees :: "(ref \<Rightarrow> 32 word) \<Rightarrow> nat \<Rightarrow> 32 word \<Rightarrow> 'v trieNode \<Rightarrow> bool" where
  "agrees hv d h node \<longleftrightarrow>
     (\<forall>e \<in> trieEntries node. \<forall>j < d. fragment (5 * j) (hv (fst e)) = fragment (5 * j) h)"

text \<open>An ordered set whose map holds each element of its list with its position.\<close>

definition orderedOK :: "(ref \<Rightarrow> 32 word) \<Rightarrow> ref set \<Rightarrow> orderedSet \<Rightarrow> bool" where
  "orderedOK hv V s \<longleftrightarrow>
     mapOK hv V (oMap s) \<and> distinct (oList s) \<and>
     mapEntries (oMap s) = {(oList s ! i, i) | i. i < length (oList s)}"

subsection \<open>Notions used in the proofs about the walk of filterTypes\<close>

text \<open>
  The nodes a node refers to, and the children that the walk is given: those of the
  optional parameter, else those the node refers to. A node is reachable from the
  roots when a path of children leads from a root to it.
\<close>

definition childRefs :: "heap \<Rightarrow> ref \<Rightarrow> ref list" where
  "childRefs h t =
     (case nodeAt h t of
        Some (ArrayType items) \<Rightarrow> [items]
      | Some (MapType values) \<Rightarrow> [values]
      | Some (ClassType c) \<Rightarrow> (case p_properties c of None \<Rightarrow> [] | Some props \<Rightarrow> map snd props)
      | Some (UnionType u) \<Rightarrow> members u
      | _ \<Rightarrow> [])"

definition kidsOf :: "heap \<Rightarrow> (ref \<Rightarrow> ref list) option \<Rightarrow> ref \<Rightarrow> ref set" where
  "kidsOf h childrenOfType t =
     (case childrenOfType of Some f \<Rightarrow> set (f t) | None \<Rightarrow> set (childRefs h t))"

definition reachable :: "heap \<Rightarrow> (ref \<Rightarrow> ref list) option \<Rightarrow> ref set \<Rightarrow> ref set" where
  "reachable h childrenOfType roots = {(a, b). b \<in> kidsOf h childrenOfType a}\<^sup>* `` roots"

text \<open>
  The classes among the nodes \<open>V\<close> have their properties set (a \<^verbatim>\<open>Map\<close>, whose keys are
  distinct).
\<close>

definition classesReady :: "heap \<Rightarrow> ref set \<Rightarrow> bool" where
  "classesReady h V \<longleftrightarrow>
     (\<forall>t \<in> V. \<forall>c. nodeAt h t = Some (ClassType c) \<longrightarrow>
        (\<exists>props. p_properties c = Some props \<and> distinct (map fst props)))"

text \<open>The nodes that \<^verbatim>\<open>seen\<close> holds.\<close>

definition seenNodes :: "filterState \<Rightarrow> ref set" where
  "seenNodes st = mapKeys (seen st)"

text \<open>
  What a part of the walk that starts in state \<open>st\<close> on the nodes \<open>ts\<close> and ends in state
  \<open>st'\<close> has done: the nodes \<open>ts\<close> are seen; the predicate was called once on each node
  that became seen, the nodes that satisfy it were pushed; the nodes that became seen
  are reachable from \<open>ts\<close>, and their children are seen.
\<close>

definition walkPost ::
  "(ref \<Rightarrow> 32 word) \<Rightarrow> (ref \<Rightarrow> bool) \<Rightarrow> (ref \<Rightarrow> ref set) \<Rightarrow> ref set \<Rightarrow> ref set \<Rightarrow>
   filterState \<Rightarrow> filterState \<Rightarrow> bool" where
  "walkPost hv predicate kids V ts st st' \<longleftrightarrow>
     mapOK hv V (seen st') \<and>
     seenNodes st \<subseteq> seenNodes st' \<and> ts \<subseteq> seenNodes st' \<and>
     (\<exists>new. calls st' = calls st @ new \<and> types st' = types st @ filter predicate new \<and>
        distinct new \<and> set new = seenNodes st' - seenNodes st) \<and>
     seenNodes st' \<subseteq> seenNodes st \<union> {(a, b). b \<in> kids a}\<^sup>* `` ts \<and>
     (\<forall>x \<in> seenNodes st' - seenNodes st. kids x \<subseteq> seenNodes st')"

section \<open>Properties of the naming operations\<close>

subsection \<open>combineNames\<close>

lemma prefixLoop_result:
  "i \<le> pl \<Longrightarrow> pl \<le> length first \<Longrightarrow> pl \<le> length n \<Longrightarrow> take i first = take i n \<Longrightarrow>
   (let k = prefixLoop first n i pl in
      i \<le> k \<and> k \<le> pl \<and> take k first = take k n \<and> (k < pl \<longrightarrow> first ! k \<noteq> n ! k))"
proof (induction first n i pl rule: prefixLoop.induct)
  case (1 first n i pl)
  show ?case
  proof (cases "i < pl")
    case False
    with "1.prems" show ?thesis by (subst prefixLoop.simps) simp
  next
    case lt: True
    show ?thesis
    proof (cases "charAt first i \<noteq> charAt n i")
      case True
      with lt "1.prems" show ?thesis by (subst prefixLoop.simps) (simp add: charAt_def)
    next
      case False
      with lt "1.prems" have eq: "first ! i = n ! i" by (simp add: charAt_def)
      from lt "1.prems" have "take (Suc i) first = take (Suc i) n"
        by (simp add: take_Suc_conv_app_nth eq)
      with "1.IH"[OF lt False] lt "1.prems" have
        "let k = prefixLoop first n (Suc i) pl in
           Suc i \<le> k \<and> k \<le> pl \<and> take k first = take k n \<and> (k < pl \<longrightarrow> first ! k \<noteq> n ! k)"
        by simp
      moreover have "prefixLoop first n i pl = prefixLoop first n (Suc i) pl"
        using lt False by (subst prefixLoop.simps) simp
      ultimately show ?thesis by (simp add: Let_def)
    qed
  qed
qed

lemma suffixLoop_rev:
  "sl \<le> length first \<Longrightarrow> sl \<le> length n \<Longrightarrow>
   suffixLoop first n i sl = prefixLoop (rev first) (rev n) i sl"
proof (induction first n i sl rule: suffixLoop.induct)
  case (1 first n i sl)
  show ?case
  proof (cases "i < sl")
    case False
    then show ?thesis
      by (subst suffixLoop.simps, subst prefixLoop.simps) simp
  next
    case lt: True
    with "1.prems" have a: "charAt first (length first - i - 1) = charAt (rev first) i"
      and b: "charAt n (length n - i - 1) = charAt (rev n) i"
      by (simp_all add: charAt_def rev_nth)
    show ?thesis
    proof (cases "charAt first (length first - i - 1) \<noteq> charAt n (length n - i - 1)")
      case True
      with lt a b show ?thesis
        by (subst suffixLoop.simps, subst prefixLoop.simps) simp
    next
      case False
      with "1.IH"[OF lt False] "1.prems" lt a b show ?thesis
        by (subst suffixLoop.simps, subst prefixLoop.simps) simp
    qed
  qed
qed

lemma PInv_step:
  assumes "PInv first ns pl"
  shows "PInv first (n # ns) (prefixLoop first n 0 (min pl (length n)))"
proof -
  let ?b = "min pl (length n)"
  let ?k = "prefixLoop first n 0 ?b"
  from assms have pl: "pl \<le> length first" by (simp add: PInv_def)
  have "let k = ?k in 0 \<le> k \<and> k \<le> ?b \<and> take k first = take k n \<and> (k < ?b \<longrightarrow> first ! k \<noteq> n ! k)"
    by (rule prefixLoop_result) (use pl in simp_all)
  then have k: "?k \<le> ?b" "take ?k first = take ?k n" "?k < ?b \<Longrightarrow> first ! ?k \<noteq> n ! ?k"
    by (simp_all add: Let_def)
  have "?k \<le> length first" using k(1) pl by simp
  moreover have "\<forall>m \<in> set (n # ns). ?k \<le> length m \<and> take ?k m = take ?k first"
  proof
    fix m assume "m \<in> set (n # ns)"
    then consider "m = n" | "m \<in> set ns" by auto
    then show "?k \<le> length m \<and> take ?k m = take ?k first"
    proof cases
      case 1
      with k show ?thesis by simp
    next
      case 2
      with assms have a: "pl \<le> length m" "take pl m = take pl first" by (simp_all add: PInv_def)
      have "?k \<le> pl" using k(1) by simp
      then have "take ?k (take pl m) = take ?k (take pl first)" using a by simp
      then have "take ?k m = take ?k first" using \<open>?k \<le> pl\<close> by (simp add: min_absorb1)
      with a \<open>?k \<le> pl\<close> show ?thesis by simp
    qed
  qed
  moreover have "\<forall>q. prefix q first \<and> (\<forall>m \<in> set (n # ns). prefix q m) \<longrightarrow> length q \<le> ?k"
  proof (intro allI impI)
    fix q assume q: "prefix q first \<and> (\<forall>m \<in> set (n # ns). prefix q m)"
    then have "length q \<le> pl" using assms by (simp add: PInv_def)
    moreover have "length q \<le> length n" using q by (simp add: prefix_length_le)
    ultimately have qb: "length q \<le> ?b" by simp
    show "length q \<le> ?k"
    proof (rule ccontr)
      assume "\<not> length q \<le> ?k"
      then have lt: "?k < length q" by simp
      then have "?k < ?b" using qb by simp
      then have ne: "first ! ?k \<noteq> n ! ?k" by (rule k(3))
      from q lt have "first ! ?k = q ! ?k" "n ! ?k = q ! ?k"
        by (auto simp: prefix_def nth_append)
      with ne show False by simp
    qed
  qed
  ultimately show ?thesis by (simp add: PInv_def)
qed

lemma combineStep_apply:
  "combineStep first n (pl, sl) =
     (prefixLoop first n 0 (min pl (length n)), suffixLoop first n 0 (min sl (length n)))"
  by (simp add: combineStep_def)

lemma fold_combineStep:
  "PInv first ns pl \<Longrightarrow> PInv (rev first) (map rev ns) sl \<Longrightarrow>
   fold (combineStep first) rest (pl, sl) = (pl', sl') \<Longrightarrow>
   PInv first (rev rest @ ns) pl' \<and> PInv (rev first) (map rev (rev rest @ ns)) sl'"
proof (induction rest arbitrary: ns pl sl)
  case Nil
  then show ?case by simp
next
  case (Cons n rest)
  let ?pl = "prefixLoop first n 0 (min pl (length n))"
  let ?sl = "suffixLoop first n 0 (min sl (length n))"
  from Cons.prems(2) have "sl \<le> length first" by (simp add: PInv_def)
  then have sl: "?sl = prefixLoop (rev first) (rev n) 0 (min sl (length (rev n)))"
    by (simp add: suffixLoop_rev)
  have p: "PInv first (n # ns) ?pl" by (rule PInv_step[OF Cons.prems(1)])
  have s: "PInv (rev first) (map rev (n # ns)) ?sl"
    unfolding sl using PInv_step[OF Cons.prems(2), of "rev n"] by simp
  from Cons.prems(3) have "fold (combineStep first) rest (?pl, ?sl) = (pl', sl')"
    by (simp add: combineStep_apply)
  from Cons.IH[OF p s this] show ?case by simp
qed

lemma PInv_init: "PInv first [] (length first)"
  by (auto simp: PInv_def prefix_length_le)

lemma PInv_longestCommonPrefix:
  assumes "PInv first ns pl"
  shows "longestCommonPrefix (first # ns) (take pl first)"
proof -
  from assms have pl: "pl \<le> length first" by (simp add: PInv_def)
  have "\<forall>n \<in> set (first # ns). prefix (take pl first) n"
  proof
    fix n assume "n \<in> set (first # ns)"
    then consider "n = first" | "n \<in> set ns" by auto
    then show "prefix (take pl first) n"
    proof cases
      case 1 then show ?thesis by (simp add: take_is_prefix)
    next
      case 2
      with assms have "take pl n = take pl first" by (simp add: PInv_def)
      then show ?thesis by (metis take_is_prefix)
    qed
  qed
  moreover have "\<forall>q. (\<forall>n \<in> set (first # ns). prefix q n) \<longrightarrow> length q \<le> length (take pl first)"
    using assms pl by (simp add: PInv_def)
  ultimately show ?thesis by (simp add: longestCommonPrefix_def)
qed

lemma longestCommonSuffix_rev:
  "longestCommonPrefix (map rev ns) (rev s) \<Longrightarrow> longestCommonSuffix ns s"
  unfolding longestCommonPrefix_def longestCommonSuffix_def
proof (intro conjI allI impI ballI)
  fix n assume a: "(\<forall>n\<in>set (map rev ns). prefix (rev s) n) \<and>
       (\<forall>q. (\<forall>n\<in>set (map rev ns). prefix q n) \<longrightarrow> length q \<le> length (rev s))" and n: "n \<in> set ns"
  then have "prefix (rev s) (rev n)" by simp
  then show "suffix s n" by (simp add: suffix_to_prefix)
next
  fix q assume a: "(\<forall>n\<in>set (map rev ns). prefix (rev s) n) \<and>
       (\<forall>q. (\<forall>n\<in>set (map rev ns). prefix q n) \<longrightarrow> length q \<le> length (rev s))"
    and q: "\<forall>n\<in>set ns. suffix q n"
  from q have "\<forall>n\<in>set (map rev ns). prefix (rev q) n" by (simp add: suffix_to_prefix)
  with a have "length (rev q) \<le> length (rev s)" by blast
  then show "length q \<le> length s" by simp
qed

lemma longestCommonPrefix_unique:
  assumes "longestCommonPrefix (first # ns) p" "longestCommonPrefix (first # ns) q"
  shows "p = q"
proof -
  from assms have "prefix p first" "prefix q first" "length p = length q"
    by (auto simp: longestCommonPrefix_def intro: le_antisym)
  then show ?thesis by (metis prefix_length_prefix prefix_order.antisym order_refl)
qed

lemma longestCommonSuffix_unique:
  assumes "longestCommonSuffix (first # ns) p" "longestCommonSuffix (first # ns) q"
  shows "p = q"
proof -
  from assms have "suffix p first" "suffix q first" "length p = length q"
    by (auto simp: longestCommonSuffix_def intro: le_antisym)
  then show ?thesis by (metis suffix_length_suffix suffix_order.antisym order_refl)
qed

lemma combineNames_two:
  assumes "rest \<noteq> []"
  shows "\<exists>p s. longestCommonPrefix (first # rest) p \<and> longestCommonSuffix (first # rest) s \<and>
           combineNames (first # rest) = Inr (combinedNameSpec first p s)"
proof -
  obtain pl sl where f: "fold (combineStep first) rest (length first, length first) = (pl, sl)"
    by (cases "fold (combineStep first) rest (length first, length first)") auto
  have "PInv (rev first) (map rev []) (length first)" using PInv_init[of "rev first"] by simp
  from fold_combineStep[OF PInv_init this f]
  have p: "PInv first (rev rest) pl" and s: "PInv (rev first) (map rev (rev rest)) sl" by simp_all
  let ?p = "take pl first" and ?s = "drop (length first - sl) first"
  from p have pl: "pl \<le> length first" by (simp add: PInv_def)
  from s have sl: "sl \<le> length first" by (simp add: PInv_def)
  have "longestCommonPrefix (first # rev rest) ?p" by (rule PInv_longestCommonPrefix[OF p])
  then have P: "longestCommonPrefix (first # rest) ?p" by (simp add: longestCommonPrefix_def)
  have "longestCommonPrefix (rev first # map rev (rev rest)) (take sl (rev first))"
    by (rule PInv_longestCommonPrefix[OF s])
  moreover have "rev ?s = take sl (rev first)" using sl by (simp add: rev_drop)
  ultimately have "longestCommonPrefix (map rev (first # rest)) (rev ?s)"
    by (simp add: longestCommonPrefix_def)
  then have S: "longestCommonSuffix (first # rest) ?s" by (rule longestCommonSuffix_rev)
  have "combineNames (first # rest) = Inr (combinedNameSpec first ?p ?s)"
    using assms f pl sl
    by (simp add: combineNames_def combinedNameSpec_def keepIfLong_def Let_def min_absorb2)
  with P S show ?thesis by blast
qed

text \<open>
  C4. On two or more names, combineNames returns the concatenation of the longest common
  prefix and the longest common suffix of all names, each kept only if longer than 2, when
  the concatenation is longer than 2, and the first name otherwise; on one name it returns
  that name. The three examples of the spec evaluate as stated.
\<close>

theorem combineNames_longest_common_affixes:
  "(rest \<noteq> [] \<longrightarrow>
      (\<exists>p s. longestCommonPrefix (first # rest) p \<and> longestCommonSuffix (first # rest) s) \<and>
      (\<forall>p s. longestCommonPrefix (first # rest) p \<and> longestCommonSuffix (first # rest) s \<longrightarrow>
             combineNames (first # rest) = Inr (combinedNameSpec first p s))) \<and>
   combineNames [first] = Inr first \<and>
   combineNames [''HelloWorld'', ''HelloMoon''] = Inr ''Hello'' \<and>
   combineNames [''Foo''] = Inr ''Foo'' \<and>
   combineNames [''AB'', ''CD''] = Inr ''AB''"
proof (intro conjI impI)
  assume rest: "rest \<noteq> []"
  from combineNames_two[OF rest, of first]
  obtain p s where ps: "longestCommonPrefix (first # rest) p" "longestCommonSuffix (first # rest) s"
    "combineNames (first # rest) = Inr (combinedNameSpec first p s)" by blast
  then show "\<exists>p s. longestCommonPrefix (first # rest) p \<and> longestCommonSuffix (first # rest) s"
    by blast
  show "\<forall>p s. longestCommonPrefix (first # rest) p \<and> longestCommonSuffix (first # rest) s \<longrightarrow>
          combineNames (first # rest) = Inr (combinedNameSpec first p s)"
  proof (intro allI impI)
    fix p' s'
    assume a: "longestCommonPrefix (first # rest) p' \<and> longestCommonSuffix (first # rest) s'"
    then have "p' = p" "s' = s"
      using ps longestCommonPrefix_unique longestCommonSuffix_unique by blast+
    with ps show "combineNames (first # rest) = Inr (combinedNameSpec first p' s')" by simp
  qed
next
  show "combineNames [first] = Inr first" by (simp add: combineNames_def)
next
  show "combineNames [''HelloWorld'', ''HelloMoon''] = Inr ''Hello''"
    by (simp add: combineNames_def combineStep_apply prefixLoop.simps suffixLoop.simps charAt_def)
next
  show "combineNames [''Foo''] = Inr ''Foo''" by (simp add: combineNames_def)
next
  show "combineNames [''AB'', ''CD''] = Inr ''AB''"
    by (simp add: combineNames_def combineStep_apply prefixLoop.simps suffixLoop.simps charAt_def)
qed

theorem combineNames_longest_common_affixes_witness:
  "[''HelloMoon''] \<noteq> [] \<and>
   (\<exists>p s. longestCommonPrefix [''HelloWorld'', ''HelloMoon''] p \<and>
          longestCommonSuffix [''HelloWorld'', ''HelloMoon''] s \<and>
          combineNames [''HelloWorld'', ''HelloMoon''] = Inr (combinedNameSpec ''HelloWorld'' p s))"
  using combineNames_longest_common_affixes[of "[''HelloMoon'']" "''HelloWorld''"] by blast

subsection \<open>addName and setGivenName\<close>

text \<open>
  C5. On a named node whose names are given (the flag is false), addName with an inferred
  name changes nothing. On a named node whose names are inferred, addName with a given name
  replaces the name set by the one name and sets the flag to false.
\<close>

theorem addName_inferred_noop_given_replaces:
  "(\<not> p_areNamesInferred this \<longrightarrow> addName name True this = this) \<and>
   (p_areNamesInferred this \<longrightarrow>
      addName name False this = this\<lparr>p_names := [name], p_areNamesInferred := False\<rparr>)"
  by (simp add: addName_def)

theorem addName_inferred_noop_given_replaces_witness:
  "\<not> p_areNamesInferred \<lparr>p_names = [''Given''], p_areNamesInferred = False\<rparr> \<and>
   addName ''x'' True \<lparr>p_names = [''Given''], p_areNamesInferred = False\<rparr> =
     \<lparr>p_names = [''Given''], p_areNamesInferred = False\<rparr> \<and>
   p_areNamesInferred \<lparr>p_names = [''a'', ''b''], p_areNamesInferred = True\<rparr> \<and>
   addName ''y'' False \<lparr>p_names = [''a'', ''b''], p_areNamesInferred = True\<rparr> =
     \<lparr>p_names = [''y''], p_areNamesInferred = False\<rparr>"
  using addName_inferred_noop_given_replaces
          [of "\<lparr>p_names = [''Given''], p_areNamesInferred = False\<rparr>" "''x''"]
        addName_inferred_noop_given_replaces
          [of "\<lparr>p_names = [''a'', ''b''], p_areNamesInferred = True\<rparr>" "''y''"]
  by simp

text \<open>
  C10. On a named node whose names are given, addName with a given name keeps every name
  the node holds, in order, and appends the new name when it is not yet held; the flag
  stays false. setGivenName replaces the name set whatever the node holds.
\<close>

theorem addName_given_to_given_appends:
  "(\<not> p_areNamesInferred this \<longrightarrow>
      addName name False this =
        this\<lparr>p_names := (if name \<in> set (p_names this) then p_names this
                          else p_names this @ [name])\<rparr> \<and>
      set (p_names this) \<subseteq> set (p_names (addName name False this)) \<and>
      name \<in> set (p_names (addName name False this)) \<and>
      \<not> p_areNamesInferred (addName name False this)) \<and>
   setGivenName name this = this\<lparr>p_names := [name], p_areNamesInferred := False\<rparr>"
  by (auto simp: addName_def setGivenName_def orderedSet_add_def)

theorem addName_given_to_given_appends_witness:
  "\<not> p_areNamesInferred \<lparr>p_names = [''A'', ''B''], p_areNamesInferred = False\<rparr> \<and>
   addName ''C'' False \<lparr>p_names = [''A'', ''B''], p_areNamesInferred = False\<rparr> =
     \<lparr>p_names = [''A'', ''B'', ''C''], p_areNamesInferred = False\<rparr> \<and>
   setGivenName ''C'' \<lparr>p_names = [''A'', ''B''], p_areNamesInferred = False\<rparr> =
     \<lparr>p_names = [''C''], p_areNamesInferred = False\<rparr>"
  using addName_given_to_given_appends
          [of "\<lparr>p_names = [''A'', ''B''], p_areNamesInferred = False\<rparr>" "''C''"]
  by simp

subsection \<open>The properties of a class\<close>

text \<open>
  The constructor of ClassType takes the properties as an optional third argument
  (ClassType.map passes it). A class constructed with properties can be read although
  setProperties was never called, and its first setProperties panics.
\<close>

theorem properties_given_at_construction:
  "properties (new_ClassType (Name ''A'') False (Some [(''x'', 0)])) = Inr [(''x'', 0)] \<and>
   setProperties [] (new_ClassType (Name ''A'') False (Some [(''x'', 0)])) =
     Inl (Panic ''Can only set class properties once'')"
  by (simp add: properties_def setProperties_def new_ClassType_def)

text \<open>
  C8, amended. For every class whose properties are unset, as after a construction without
  the third argument: reading the properties panics; setProperties succeeds, after which
  reading returns the mapping that was stored and every further setProperties panics.
\<close>

theorem properties_set_exactly_once:
  "p_properties (new_ClassType names areNamesInferred None) = None \<and>
   (p_properties this = None \<longrightarrow>
      properties this = Inl (Panic ''Class properties accessed before they were set'') \<and>
      setProperties props this = Inr (this\<lparr>p_properties := Some props\<rparr>) \<and>
      properties (this\<lparr>p_properties := Some props\<rparr>) = Inr props \<and>
      setProperties props' (this\<lparr>p_properties := Some props\<rparr>) =
        Inl (Panic ''Can only set class properties once''))"
  by (simp add: properties_def setProperties_def new_ClassType_def)

theorem properties_set_exactly_once_witness:
  "p_properties (new_ClassType (Name ''A'') True None) = None \<and>
   properties (new_ClassType (Name ''A'') True None) =
     Inl (Panic ''Class properties accessed before they were set'') \<and>
   setProperties [(''x'', 0)] (new_ClassType (Name ''A'') True None) =
     Inr (new_ClassType (Name ''A'') True (Some [(''x'', 0)])) \<and>
   properties (new_ClassType (Name ''A'') True (Some [(''x'', 0)])) = Inr [(''x'', 0)] \<and>
   setProperties [] (new_ClassType (Name ''A'') True (Some [(''x'', 0)])) =
     Inl (Panic ''Can only set class properties once'')"
  using properties_set_exactly_once
          [of "Name ''A''" True "new_ClassType (Name ''A'') True None" "[(''x'', 0)]" "[]"]
  by (simp add: new_ClassType_def)

section \<open>Results: basic facts\<close>

lemma andThen_simps [simp]:
  "andThen None f = None"
  "andThen (ok x) f = f x"
  "andThen (fault e) f = fault e"
  "andThen (Some (Inr x)) f = f x"
  "andThen (Some (Inl e)) f = Some (Inl e)"
  by (simp_all add: andThen_def ok_def fault_def)

lemma result_distinct [simp]:
  "ok x \<noteq> None" "None \<noteq> ok x" "fault e \<noteq> None" "None \<noteq> fault e"
  "ok x \<noteq> fault e" "fault e \<noteq> ok x"
  "ok x = ok y \<longleftrightarrow> x = y" "fault e = fault e' \<longleftrightarrow> e = e'"
  "ok x = Some (Inr y) \<longleftrightarrow> x = y" "Some (Inr y) = ok x \<longleftrightarrow> x = y"
  "ok x \<noteq> Some (Inl e)" "Some (Inl e) \<noteq> ok x"
  by (auto simp: ok_def fault_def)

lemma lift_simps [simp]: "lift (Inr x) = ok x" "lift (Inl e) = fault e"
  by (simp_all add: lift_def ok_def fault_def)

lemma lift_eq_ok [simp]: "lift r = ok x \<longleftrightarrow> r = Inr x"
  by (simp add: lift_def ok_def)

lemma result_cases:
  obtains (Timeout) "m = None" | (Fault) e where "m = fault e" | (Ok) x where "m = ok x"
  by (cases m) (auto simp: ok_def fault_def, metis sum.exhaust)

lemma andThen_eq_ok: "andThen m f = ok v \<longleftrightarrow> (\<exists>x. m = ok x \<and> f x = ok v)"
  by (cases m rule: result_cases) auto

lemma andThen_eq_None: "andThen m f = None \<longleftrightarrow> m = None \<or> (\<exists>x. m = ok x \<and> f x = None)"
  by (cases m rule: result_cases) auto

lemma andThen_mono:
  assumes "andThen m f = Some r"
    and "\<And>r. m = Some r \<Longrightarrow> m' = Some r"
    and "\<And>x r. m = ok x \<Longrightarrow> f x = Some r \<Longrightarrow> f' x = Some r"
  shows "andThen m' f' = Some r"
proof (cases m rule: result_cases)
  case Timeout
  with assms(1) show ?thesis by simp
next
  case (Fault e)
  with assms(1) have "r = Inl e" by (simp add: fault_def)
  moreover from Fault assms(2) have "m' = fault e" by (simp add: fault_def)
  ultimately show ?thesis by (simp add: fault_def)
next
  case (Ok x)
  with assms(2) have "m' = ok x" by (simp add: ok_def)
  with Ok assms(1,3) show ?thesis by simp
qed

lemma forEachAcc_mono:
  assumes "forEachAcc f xs acc = Some r"
    and "\<And>x acc r. x \<in> set xs \<Longrightarrow> f x acc = Some r \<Longrightarrow> g x acc = Some r"
  shows "forEachAcc g xs acc = Some r"
  using assms
proof (induction xs arbitrary: acc r)
  case Nil
  then show ?case by simp
next
  case (Cons x xs)
  from Cons.prems(1) have "andThen (f x acc) (forEachAcc f xs) = Some r" by simp
  then have "andThen (g x acc) (forEachAcc g xs) = Some r"
  proof (rule andThen_mono)
    fix r' assume "f x acc = Some r'"
    then show "g x acc = Some r'" using Cons.prems(2) by simp
  next
    fix acc' r' assume "forEachAcc f xs acc' = Some r'"
    then show "forEachAcc g xs acc' = Some r'" using Cons.IH Cons.prems(2) by simp
  qed
  then show ?case by simp
qed

section \<open>Equality and hashing on the example graphs\<close>

lemma nodeAt_arrayCycleHeap [simp]:
  "nodeAt arrayCycleHeap 0 = Some (ClassType \<lparr>p_names = [''A''], p_areNamesInferred = True,
                 p_properties = Some [(''children'', 1)]\<rparr>)"
  "nodeAt arrayCycleHeap (Suc 0) = Some (ArrayType 0)"
  "nodeAt arrayCycleHeap 2 = Some (ClassType \<lparr>p_names = [''A''], p_areNamesInferred = True,
                 p_properties = Some [(''children'', 3)]\<rparr>)"
  "nodeAt arrayCycleHeap 3 = Some (ArrayType 2)"
  by (simp_all add: nodeAt_def arrayCycleHeap_def)

text \<open>
  On the class with an array of itself, each hash calls the other without end:
  ArrayType.flatHashCode calls \<^verbatim>\<open>items.hashCode()\<close>, and ClassType.hashCode calls the
  flatHashCode of the property.
\<close>

lemma arrayCycle_hash_diverges:
  "hashCode H n arrayCycleHeap (Suc 0) = None \<and>
   flatHashCode H n arrayCycleHeap (Suc 0) = None \<and>
   hashCode H n arrayCycleHeap 0 = None"
proof (induction n)
  case 0
  show ?case by simp
next
  case (Suc n)
  then have a: "hashCode H n arrayCycleHeap (Suc 0) = None"
    "flatHashCode H n arrayCycleHeap (Suc 0) = None"
    "hashCode H n arrayCycleHeap 0 = None" by simp_all
  have "hashCode H (Suc n) arrayCycleHeap (Suc 0) = None" using a by simp
  moreover have "flatHashCode H (Suc n) arrayCycleHeap (Suc 0) = None" using a by simp
  moreover have "hashCode H (Suc n) arrayCycleHeap 0 = None"
    using a by (cases n) (simp_all add: properties_def)
  ultimately show ?case by simp
qed

lemma expand_arrayCycle:
  "expandForEquality arrayCycleHeap 0 2 = Inr (Queue [(Suc 0, 3)])"
  by (simp add: expandForEquality_def properties_def)

lemma typesEqualLoop_arrayCycle:
  "typesEqualLoop H m arrayCycleHeap [(Suc 0, 3)] Map.empty = None"
proof (cases m)
  case 0
  then show ?thesis by simp
next
  case (Suc k)
  then show ?thesis by (simp add: alreadySeen_def arrayCycle_hash_diverges)
qed

text \<open>
  C7. Two classes built independently with the same structure, each with a property whose
  type is an array of the class itself: equals returns with no amount of fuel, since
  alreadySeen hashes the first array of the pair it pops. On two classes whose property is
  the class itself, equals returns true.
\<close>

theorem equals_diverges_on_cycle_through_array:
  "equals H n arrayCycleHeap 0 2 = None \<and>
   equals H (Suc (Suc (Suc (Suc (Suc n))))) selfCycleHeap 0 1 = ok True"
proof
  show "equals H n arrayCycleHeap 0 2 = None"
    by (cases n)
      (simp_all add: equals.simps typesEqual_def expand_arrayCycle typesEqualLoop_arrayCycle)
  show "equals H (Suc (Suc (Suc (Suc (Suc n))))) selfCycleHeap 0 1 = ok True"
    by (simp add: equals.simps selfCycleHeap_def typesEqual_def expandForEquality_def
        nodeAt_def properties_def alreadySeen_def)
qed


section \<open>expandForEquality, by the classes of the two nodes\<close>

lemma primitiveKindName_inj [simp]: "primitiveKindName k = primitiveKindName k' \<longleftrightarrow> k = k'"
  by (cases k; cases k') simp_all

lemma properties_eq_Inr: "properties c = Inr ps \<longleftrightarrow> p_properties c = Some ps"
  by (simp add: properties_def split: option.splits)

lemma properties_eq_Inl: "properties c = Inl e \<Longrightarrow> p_properties c = None"
  by (simp add: properties_def split: option.splits)

lemma expand_Dangling:
  "nodeAt h a = None \<or> nodeAt h b = None \<Longrightarrow> expandForEquality h a b = Inl Dangling"
  by (auto simp: expandForEquality_def split: option.splits)

lemma expand_Primitive:
  "nodeAt h a = Some (PrimitiveType k) \<Longrightarrow> nodeAt h b = Some nb \<Longrightarrow>
   expandForEquality h a b = Inr (Result (nb = PrimitiveType k))"
  by (cases nb) (auto simp: expandForEquality_def)

lemma expand_Array:
  "nodeAt h a = Some (ArrayType i) \<Longrightarrow> nodeAt h b = Some nb \<Longrightarrow>
   expandForEquality h a b =
     (case nb of ArrayType i' \<Rightarrow> Inr (Queue [(i, i')]) | _ \<Rightarrow> Inr (Result False))"
  by (cases nb) (auto simp: expandForEquality_def)

lemma expand_Map:
  "nodeAt h a = Some (MapType i) \<Longrightarrow> nodeAt h b = Some nb \<Longrightarrow>
   expandForEquality h a b =
     (case nb of MapType i' \<Rightarrow> Inr (Queue [(i, i')]) | _ \<Rightarrow> Inr (Result False))"
  by (cases nb) (auto simp: expandForEquality_def)

lemma expand_Enum:
  "nodeAt h a = Some (EnumType e) \<Longrightarrow> nodeAt h b = Some nb \<Longrightarrow>
   expandForEquality h a b =
     (case nb of EnumType e' \<Rightarrow> Inr (Result (p_names e = p_names e' \<and> enumCases e = enumCases e'))
      | _ \<Rightarrow> Inr (Result False))"
  by (cases nb) (auto simp: expandForEquality_def)

lemma expand_Class_other:
  "nodeAt h a = Some (ClassType c) \<Longrightarrow> nodeAt h b = Some nb \<Longrightarrow> (\<And>c'. nb \<noteq> ClassType c') \<Longrightarrow>
   expandForEquality h a b = Inr (Result False)"
  by (cases nb) (auto simp: expandForEquality_def)

lemma expand_Class_Class:
  "nodeAt h a = Some (ClassType c) \<Longrightarrow> nodeAt h b = Some (ClassType c') \<Longrightarrow>
   expandForEquality h a b =
     (if p_names c \<noteq> p_names c' then Inr (Result False)
      else case p_properties c of
        None \<Rightarrow> Inl (Panic ''Class properties accessed before they were set'')
      | Some props \<Rightarrow>
        (case p_properties c' of
           None \<Rightarrow> Inl (Panic ''Class properties accessed before they were set'')
         | Some props' \<Rightarrow>
           if length props \<noteq> length props' then Inr (Result False)
           else if length props = 0 then Inr (Result True)
           else if length (classQueue props props') \<noteq> length props then Inr (Result False)
           else Inr (Queue (classQueue props props'))))"
  by (cases "p_properties c"; cases "p_properties c'")
     (simp_all add: expandForEquality_def properties_def Let_def)

lemma expand_Union_other:
  "nodeAt h a = Some (UnionType u) \<Longrightarrow> nodeAt h b = Some nb \<Longrightarrow> (\<And>u'. nb \<noteq> UnionType u') \<Longrightarrow>
   expandForEquality h a b = Inr (Result False)"
  by (cases nb) (auto simp: expandForEquality_def)

lemma expand_Union_Union:
  "nodeAt h a = Some (UnionType u) \<Longrightarrow> nodeAt h b = Some (UnionType u') \<Longrightarrow>
   expandForEquality h a b =
     (if p_names u \<noteq> p_names u' then Inr (Result False)
      else if length (members u) \<noteq> length (members u') then Inr (Result False)
      else if length (members u) = 0 then Inr (Result True)
      else case withKinds h (members u') of Inl e \<Rightarrow> Inl e | Inr others \<Rightarrow>
        (case withKinds h (members u) of Inl e \<Rightarrow> Inl e | Inr mine \<Rightarrow>
           if length (unionQueue mine (otherByKind others)) \<noteq> length (members u)
           then Inr (Result False)
           else Inr (Queue (unionQueue mine (otherByKind others)))))"
  by (cases "withKinds h (members u')"; cases "withKinds h (members u)")
     (simp_all add: expandForEquality_def Let_def)

lemma withKinds_Nil [simp]: "withKinds h [] = Inr []"
  by (simp add: withKinds_def)

lemma locallyEqual_cases:
  assumes "locallyEqual h S (a, b)" and "a \<noteq> b"
  obtains
    (Primitive) k where "nodeAt h a = Some (PrimitiveType k)" "nodeAt h b = Some (PrimitiveType k)"
  | (Array) i i' where "nodeAt h a = Some (ArrayType i)" "nodeAt h b = Some (ArrayType i')"
      "(i, i') \<in> S"
  | (Map) i i' where "nodeAt h a = Some (MapType i)" "nodeAt h b = Some (MapType i')"
      "(i, i') \<in> S"
  | (Class) c c' ps ps' where "nodeAt h a = Some (ClassType c)" "nodeAt h b = Some (ClassType c')"
      "p_names c = p_names c'" "p_properties c = Some ps" "p_properties c' = Some ps'"
      "length ps = length ps'" "length (classQueue ps ps') = length ps"
      "set (classQueue ps ps') \<subseteq> S"
  | (Enum) e e' where "nodeAt h a = Some (EnumType e)" "nodeAt h b = Some (EnumType e')"
      "p_names e = p_names e'" "enumCases e = enumCases e'"
  | (Union) u u' mine others where "nodeAt h a = Some (UnionType u)"
      "nodeAt h b = Some (UnionType u')" "p_names u = p_names u'"
      "length (members u) = length (members u')"
      "withKinds h (members u) = Inr mine" "withKinds h (members u') = Inr others"
      "length (unionQueue mine (otherByKind others)) = length (members u)"
      "set (unionQueue mine (otherByKind others)) \<subseteq> S"
proof -
  from assms have e: "case expandForEquality h a b of Inl e \<Rightarrow> False | Inr (Result r) \<Rightarrow> r
      | Inr (Queue ps) \<Rightarrow> set ps \<subseteq> S"
    by (simp add: locallyEqual_def)
  then obtain na nb where n: "nodeAt h a = Some na" "nodeAt h b = Some nb"
    using expand_Dangling[of h a b] by (cases "nodeAt h a"; cases "nodeAt h b") auto
  show thesis
  proof (cases na)
    case (PrimitiveType k)
    with e n Primitive show ?thesis by (simp add: expand_Primitive)
  next
    case (ArrayType i)
    with e n Array show ?thesis by (cases nb) (simp_all add: expand_Array)
  next
    case (MapType i)
    with e n Map show ?thesis by (cases nb) (simp_all add: expand_Map)
  next
    case (EnumType en)
    with e n Enum show ?thesis by (cases nb) (simp_all add: expand_Enum)
  next
    case c: (ClassType c)
    show ?thesis
    proof (cases "\<exists>c'. nb = ClassType c'")
      case False
      with e n c show ?thesis by (simp add: expand_Class_other)
    next
      case True
      then obtain c' where c': "nb = ClassType c'" by blast
      from e n c c' show ?thesis
        using Class[of c c'] 
        by (auto simp: expand_Class_Class split: if_splits option.splits)
    qed
  next
    case u: (UnionType u)
    show ?thesis
    proof (cases "\<exists>u'. nb = UnionType u'")
      case False
      with e n u show ?thesis by (simp add: expand_Union_other)
    next
      case True
      then obtain u' where u': "nb = UnionType u'" by blast
      from e n u u' show ?thesis
        using Union[of u u']
        by (auto simp: expand_Union_Union split: if_splits sum.splits)
    qed
  qed
qed

section \<open>The work list of typesEqual: what a true answer means\<close>

lemma locallyEqual_mono: "locallyEqual h S p \<Longrightarrow> S \<subseteq> S' \<Longrightarrow> locallyEqual h S' p"
  by (auto simp: locallyEqual_def split: sum.splits expansion.splits)

lemma list_ex_pair [simp]: "list_ex (\<lambda>(o1, o2). o1 = fst p \<and> o2 = snd p) pairs \<longleftrightarrow> p \<in> set pairs"
  by (induction pairs) (auto simp: prod_eq_iff)

lemma seenPairs_empty [simp]: "seenPairs Map.empty = {}"
  by (simp add: seenPairs_def)

lemma seenPairs_upd:
  assumes "s k = None \<and> ps = [] \<or> s k = Some ps"
  shows "seenPairs (s(k \<mapsto> ps @ [p])) = insert p (seenPairs s)"
proof (intro set_eqI iffI)
  fix q assume "q \<in> seenPairs (s(k \<mapsto> ps @ [p]))"
  then obtain ka qs where q: "(s(k \<mapsto> ps @ [p])) ka = Some qs" "q \<in> set qs"
    by (auto simp: seenPairs_def)
  show "q \<in> insert p (seenPairs s)"
  proof (cases "ka = k")
    case True
    with q have "q = p \<or> q \<in> set ps" by auto
    with assms show ?thesis by (auto simp: seenPairs_def)
  next
    case False
    with q have "s ka = Some qs" by simp
    with q(2) show ?thesis by (auto simp: seenPairs_def)
  qed
next
  fix q assume "q \<in> insert p (seenPairs s)"
  then consider "q = p" | "q \<in> seenPairs s" by blast
  then show "q \<in> seenPairs (s(k \<mapsto> ps @ [p]))"
  proof cases
    case 1
    have "(s(k \<mapsto> ps @ [p])) k = Some (ps @ [p])" by simp
    with 1 show ?thesis unfolding seenPairs_def by (intro CollectI exI[of _ k] exI[of _ "ps @ [p]"]) simp
  next
    case 2
    then obtain ka qs where q: "s ka = Some qs" "q \<in> set qs" by (auto simp: seenPairs_def)
    show ?thesis
    proof (cases "ka = k")
      case True
      with q assms have "qs = ps" by auto
      with q True show ?thesis
        unfolding seenPairs_def by (intro CollectI exI[of _ k] exI[of _ "ps @ [p]"]) simp
    next
      case False
      with q show ?thesis
        unfolding seenPairs_def by (intro CollectI exI[of _ ka] exI[of _ qs]) simp
    qed
  qed
qed

lemma alreadySeen_cases:
  assumes "alreadySeen H n h s p = ok (wasSeen, s')"
  obtains (Seen) "wasSeen" "s' = s" "p \<in> seenPairs s"
  | (New) k ps where "\<not> wasSeen" "hashCode H n h (fst p) = ok k"
      "s k = None \<and> ps = [] \<or> s k = Some ps" "p \<notin> set ps" "s' = s(k \<mapsto> ps @ [p])"
proof -
  from assms obtain k where k: "hashCode H n h (fst p) = ok k"
    and r: "(case s k of
         Some pairs \<Rightarrow> if p \<in> set pairs then ok (True, s) else ok (False, s(k \<mapsto> pairs @ [p]))
       | None \<Rightarrow> ok (False, s(k \<mapsto> [p]))) = ok (wasSeen, s')"
    by (auto simp: alreadySeen_def andThen_eq_ok split: option.splits)
  show thesis
  proof (cases "s k")
    case None
    with r have "\<not> wasSeen" "s' = s(k \<mapsto> [] @ [p])" by auto
    with None k show thesis using New[of k "[]"] by simp
  next
    case (Some ps)
    show thesis
    proof (cases "p \<in> set ps")
      case True
      with Some r have "wasSeen" "s' = s" by auto
      moreover from Some True have "p \<in> seenPairs s" by (auto simp: seenPairs_def)
      ultimately show thesis by (rule Seen)
    next
      case False
      with Some r have "\<not> wasSeen" "s' = s(k \<mapsto> ps @ [p])" by auto
      with Some False k show thesis using New[of k ps] by simp
    qed
  qed
qed

lemma alreadySeen_True:
  "alreadySeen H n h s p = ok (True, s') \<Longrightarrow> s' = s \<and> p \<in> seenPairs s"
  by (erule alreadySeen_cases) auto

lemma alreadySeen_False:
  "alreadySeen H n h s p = ok (False, s') \<Longrightarrow> seenPairs s' = insert p (seenPairs s)"
  by (erule alreadySeen_cases) (auto simp: seenPairs_upd)


lemma typesEqualLoop_sound:
  "typesEqualLoop H n h q s = ok True \<Longrightarrow>
   \<exists>S. set q \<subseteq> S \<and> seenPairs s \<subseteq> S \<and> (\<forall>p \<in> S. p \<in> seenPairs s \<or> locallyEqual h S p)"
proof (induction n arbitrary: q s)
  case 0
  then show ?case by simp
next
  case (Suc n)
  show ?case
  proof (cases q)
    case Nil
    from Nil show ?thesis by (intro exI[of _ "seenPairs s"]) simp
  next
    case (Cons p rest)
    obtain t1 t2 where p: "p = (t1, t2)" by (cases p)
    show ?thesis
    proof (cases "t1 = t2")
      case True
      with Suc.prems Cons p have "typesEqualLoop H n h rest s = ok True" by simp
      from Suc.IH[OF this] obtain S where S: "set rest \<subseteq> S" "seenPairs s \<subseteq> S"
        "\<forall>p \<in> S. p \<in> seenPairs s \<or> locallyEqual h S p" by blast
      let ?S = "insert p S"
      have "\<forall>q \<in> ?S. q \<in> seenPairs s \<or> locallyEqual h ?S q"
      proof
        fix q assume "q \<in> ?S"
        then consider "q = p" | "q \<in> S" by blast
        then show "q \<in> seenPairs s \<or> locallyEqual h ?S q"
        proof cases
          case 1
          with p True show ?thesis by (simp add: locallyEqual_def)
        next
          case 2
          with S(3) show ?thesis using locallyEqual_mono[of h S q ?S] by blast
        qed
      qed
      moreover have "set q \<subseteq> ?S" using S(1) Cons by auto
      moreover have "seenPairs s \<subseteq> ?S" using S(2) by auto
      ultimately show ?thesis by (intro exI[of _ ?S]) simp
    next
      case ne: False
      let ?body = "\<lambda>(wasSeen, s'). if wasSeen then typesEqualLoop H n h rest s'
          else (case expandForEquality h t1 t2 of
               Inl e \<Rightarrow> fault e
             | Inr (Result r) \<Rightarrow> if \<not> r then ok False else typesEqualLoop H n h rest s'
             | Inr (Queue ps) \<Rightarrow> typesEqualLoop H n h (rev ps @ rest) s')"
      from ne Suc.prems Cons p
      have "andThen (alreadySeen H n h s (t1, t2)) ?body = ok True" by simp
      then obtain x where x: "alreadySeen H n h s (t1, t2) = ok x" "?body x = ok True"
        unfolding andThen_eq_ok by blast
      obtain wasSeen s' where xs: "x = (wasSeen, s')" by (cases x)
      from x xs have as: "alreadySeen H n h s (t1, t2) = ok (wasSeen, s')"
        and rest: "(if wasSeen then typesEqualLoop H n h rest s'
          else (case expandForEquality h t1 t2 of
               Inl e \<Rightarrow> fault e
             | Inr (Result r) \<Rightarrow> if \<not> r then ok False else typesEqualLoop H n h rest s'
             | Inr (Queue ps) \<Rightarrow> typesEqualLoop H n h (rev ps @ rest) s')) = ok True"
        by simp_all
      show ?thesis
      proof (cases wasSeen)
        case True
        with as have "alreadySeen H n h s (t1, t2) = ok (True, s')" by simp
        from alreadySeen_True[OF this] have s': "s' = s" and mem: "(t1, t2) \<in> seenPairs s"
          by simp_all
        from rest True s' have "typesEqualLoop H n h rest s = ok True" by simp
        from Suc.IH[OF this] obtain S where S: "set rest \<subseteq> S" "seenPairs s \<subseteq> S"
          "\<forall>p \<in> S. p \<in> seenPairs s \<or> locallyEqual h S p" by blast
        moreover have "set q \<subseteq> S" using S(1) mem S(2) Cons p by auto
        ultimately show ?thesis by (intro exI[of _ S]) simp
      next
        case False
        with as have "alreadySeen H n h s (t1, t2) = ok (False, s')" by simp
        from alreadySeen_False[OF this]
        have sp: "seenPairs s' = insert (t1, t2) (seenPairs s)" .
        from rest False have rest': "(case expandForEquality h t1 t2 of
               Inl e \<Rightarrow> fault e
             | Inr (Result r) \<Rightarrow> if \<not> r then ok False else typesEqualLoop H n h rest s'
             | Inr (Queue ps) \<Rightarrow> typesEqualLoop H n h (rev ps @ rest) s') = ok True" by simp
        have "\<exists>q'. typesEqualLoop H n h q' s' = ok True \<and> set rest \<subseteq> set q' \<and>
            (\<forall>S. set q' \<subseteq> S \<longrightarrow> locallyEqual h S (t1, t2))"
        proof (cases "expandForEquality h t1 t2")
          case (Inl e)
          with rest' show ?thesis by simp
        next
          case (Inr ex)
          show ?thesis
          proof (cases ex)
            case (Result r)
            with Inr rest' have "r" "typesEqualLoop H n h rest s' = ok True"
              by (simp_all split: if_splits)
            moreover from Inr Result \<open>r\<close> have "\<forall>S. locallyEqual h S (t1, t2)"
              by (simp add: locallyEqual_def)
            ultimately show ?thesis by blast
          next
            case (Queue ps)
            with Inr rest' have "typesEqualLoop H n h (rev ps @ rest) s' = ok True" by simp
            moreover from Inr Queue
            have "\<forall>S. set (rev ps @ rest) \<subseteq> S \<longrightarrow> locallyEqual h S (t1, t2)"
              by (simp add: locallyEqual_def)
            ultimately show ?thesis by (intro exI[of _ "rev ps @ rest"]) simp
          qed
        qed
        then obtain q' where
          q': "typesEqualLoop H n h q' s' = ok True" "set rest \<subseteq> set q'"
          and loc: "\<And>S. set q' \<subseteq> S \<Longrightarrow> locallyEqual h S (t1, t2)"
          by blast
        from Suc.IH[OF q'(1)] obtain S where S: "set q' \<subseteq> S" "seenPairs s' \<subseteq> S"
          "\<forall>p \<in> S. p \<in> seenPairs s' \<or> locallyEqual h S p" by blast
        have "\<forall>p \<in> S. p \<in> seenPairs s \<or> locallyEqual h S p"
        proof
          fix x assume "x \<in> S"
          with S(3) have "x \<in> seenPairs s' \<or> locallyEqual h S x" by blast
          with sp loc[OF S(1)] show "x \<in> seenPairs s \<or> locallyEqual h S x" by auto
        qed
        moreover have "set q \<subseteq> S" using S(1,2) sp q'(2) Cons p by auto
        moreover have "seenPairs s \<subseteq> S" using S(2) sp by auto
        ultimately show ?thesis by (intro exI[of _ S]) simp
      qed
    qed
  qed
qed

lemma typesEqual_sound:
  assumes "typesEqual H n h a b = ok True"
  shows "\<exists>S. (a, b) \<in> S \<and> (\<forall>p \<in> S. locallyEqual h S p)"
proof (cases "a = b")
  case True
  then have "\<forall>p \<in> {(a, b)}. locallyEqual h {(a, b)} p" by (simp add: locallyEqual_def)
  then show ?thesis by blast
next
  case False
  with assms obtain S0 where S0: "\<forall>p \<in> S0. locallyEqual h S0 p" "locallyEqual h S0 (a, b)"
  proof (cases "expandForEquality h a b")
    case (Inl e)
    with assms False show ?thesis by (simp add: typesEqual_def)
  next
    case (Inr x)
    show ?thesis
    proof (cases x)
      case (Result r)
      with Inr assms False have "locallyEqual h {} (a, b)"
        by (simp add: typesEqual_def locallyEqual_def)
      then show ?thesis using that[of "{}"] by simp
    next
      case (Queue ps)
      with Inr assms False have "typesEqualLoop H n h (rev ps) Map.empty = ok True"
        by (simp add: typesEqual_def)
      from typesEqualLoop_sound[OF this] obtain S where
        "set ps \<subseteq> S" "\<forall>p \<in> S. locallyEqual h S p" by auto
      moreover from this Queue Inr have "locallyEqual h S (a, b)" by (simp add: locallyEqual_def)
      ultimately show ?thesis using that[of S] by simp
    qed
  qed
  let ?S = "insert (a, b) S0"
  have "\<forall>p \<in> ?S. locallyEqual h ?S p"
    using S0 locallyEqual_mono[of h S0 _ ?S] by blast
  then show ?thesis by blast
qed

section \<open>Equal nodes have equal hashes\<close>

subsection \<open>Loops that add up hashes\<close>

lemma valOf_ok [simp]: "valOf (ok x) = x"
  by (simp add: valOf_def ok_def)

lemma okEq_refl [simp]: "okEq r r"
  by (simp add: okEq_def)

lemma okEq_valOf: "okEq r r' \<Longrightarrow> valOf r = valOf r'"
proof (cases r rule: result_cases)
  case Timeout
  assume "okEq r r'"
  with Timeout have "\<forall>v. r' \<noteq> ok v" by (simp add: okEq_def)
  then have "valOf r' = 0"
    by (cases r' rule: result_cases) (simp_all add: valOf_def fault_def)
  with Timeout show ?thesis by (simp add: valOf_def)
next
  case (Fault e)
  assume "okEq r r'"
  with Fault have "\<forall>v. r' \<noteq> ok v" by (simp add: okEq_def)
  then have "valOf r' = 0"
    by (cases r' rule: result_cases) (simp_all add: valOf_def fault_def)
  with Fault show ?thesis by (simp add: valOf_def fault_def)
next
  case (Ok x)
  assume "okEq r r'"
  with Ok have "r' = ok x" unfolding okEq_def by blast
  with Ok show ?thesis by simp
qed

lemma forEachAcc_sum:
  "forEachAcc (\<lambda>x acc. andThen (w x) (\<lambda>f. ok (acc + f + d x))) xs acc = ok v \<longleftrightarrow>
     (\<forall>x \<in> set xs. \<exists>f. w x = ok f) \<and> v = acc + sum_list (map (\<lambda>x. valOf (w x) + d x) xs)"
proof (induction xs arbitrary: acc)
  case Nil
  show ?case by auto
next
  case (Cons x xs)
  show ?case
  proof (cases "w x" rule: result_cases)
    case Timeout
    then show ?thesis by simp
  next
    case (Fault e)
    then show ?thesis by simp
  next
    case (Ok f)
    then show ?thesis using Cons.IH[of "acc + f + d x"] by (auto simp: algebra_simps)
  qed
qed

lemma forEachAcc_sum_distinct:
  assumes "distinct xs"
  shows "forEachAcc (\<lambda>x acc. andThen (w x) (\<lambda>f. ok (acc + f + d x))) xs acc = ok v \<longleftrightarrow>
     (\<forall>x \<in> set xs. \<exists>f. w x = ok f) \<and> v = acc + (\<Sum>x \<in> set xs. valOf (w x) + d x)"
  using assms by (simp add: forEachAcc_sum sum_list_distinct_conv_sum_set)

text \<open>Two loops over sets in bijection, with weights that agree, return the same.\<close>

lemma forEachAcc_bij:
  assumes "distinct xs" "distinct ys" "inj_on \<sigma> (set xs)" "\<sigma> ` set xs = set ys"
    and "\<And>x. x \<in> set xs \<Longrightarrow> okEq (w x) (w' (\<sigma> x)) \<and> d x = d' (\<sigma> x)"
  shows "okEq (forEachAcc (\<lambda>x acc. andThen (w x) (\<lambda>f. ok (acc + f + d x))) xs (acc :: 32 word))
              (forEachAcc (\<lambda>y acc. andThen (w' y) (\<lambda>f. ok (acc + f + d' y))) ys acc)"
proof -
  have a: "(\<forall>x \<in> set xs. \<exists>f. w x = ok f) \<longleftrightarrow> (\<forall>y \<in> set ys. \<exists>f. w' y = ok f)"
  proof
    assume l: "\<forall>x \<in> set xs. \<exists>f. w x = ok f"
    show "\<forall>y \<in> set ys. \<exists>f. w' y = ok f"
    proof
      fix y assume "y \<in> set ys"
      with assms(4) obtain x where x: "x \<in> set xs" "y = \<sigma> x" by blast
      with l obtain f where "w x = ok f" by blast
      with assms(5)[OF x(1)] x(2) show "\<exists>f. w' y = ok f" by (auto simp: okEq_def)
    qed
  next
    assume r: "\<forall>y \<in> set ys. \<exists>f. w' y = ok f"
    show "\<forall>x \<in> set xs. \<exists>f. w x = ok f"
    proof
      fix x assume x: "x \<in> set xs"
      with assms(4) have "\<sigma> x \<in> set ys" by blast
      with r obtain f where "w' (\<sigma> x) = ok f" by blast
      with assms(5)[OF x] show "\<exists>f. w x = ok f" by (auto simp: okEq_def)
    qed
  qed
  have "(\<Sum>y \<in> set ys. valOf (w' y) + d' y) = (\<Sum>x \<in> set xs. valOf (w' (\<sigma> x)) + d' (\<sigma> x))"
    using assms(3,4) by (metis (no_types, lifting) sum.reindex_cong)
  also have "\<dots> = (\<Sum>x \<in> set xs. valOf (w x) + d x)"
  proof (rule sum.cong)
    fix x assume x: "x \<in> set xs"
    from assms(5)[OF x] have "valOf (w x) = valOf (w' (\<sigma> x))" "d x = d' (\<sigma> x)"
      by (simp_all add: okEq_valOf)
    then show "valOf (w' (\<sigma> x)) + d' (\<sigma> x) = valOf (w x) + d x" by simp
  qed simp
  finally have b: "(\<Sum>y \<in> set ys. valOf (w' y) + d' y) = (\<Sum>x \<in> set xs. valOf (w x) + d x)" .
  show ?thesis
    unfolding okEq_def forEachAcc_sum_distinct[OF assms(1)] forEachAcc_sum_distinct[OF assms(2)]
    using a b by simp
qed

lemma okEq_andThen:
  assumes "okEq m m'" and "\<And>x. okEq (f x) (f' x)"
  shows "okEq (andThen m f) (andThen m' f')"
  using assms unfolding okEq_def andThen_eq_ok by blast

lemma okEq_sym: "okEq r r' \<Longrightarrow> okEq r' r"
  by (auto simp: okEq_def)

lemma forEachAcc_bij0:
  assumes "distinct xs" "distinct ys" "inj_on \<sigma> (set xs)" "\<sigma> ` set xs = set ys"
    and "\<And>x. x \<in> set xs \<Longrightarrow> okEq (w x) (w' (\<sigma> x))"
  shows "okEq (forEachAcc (\<lambda>x acc. andThen (w x) (\<lambda>f. ok (acc + f))) xs (acc :: 32 word))
              (forEachAcc (\<lambda>y acc. andThen (w' y) (\<lambda>f. ok (acc + f))) ys acc)"
  using forEachAcc_bij[OF assms(1-4), of w w' "\<lambda>_. 0" "\<lambda>_. 0" acc] assms(5) by simp

subsection \<open>Matching the properties of two classes, and the members of two unions\<close>

lemma classQueue_length_le: "length (classQueue ps ps') \<le> length ps"
  by (induction ps ps' rule: classQueue.induct) (auto split: option.splits)

lemma classQueue_full:
  "length (classQueue ps ps') = length ps \<Longrightarrow>
   classQueue ps ps' = map (\<lambda>p. (snd p, the (map_of ps' (fst p)))) ps \<and>
   (\<forall>p \<in> set ps. map_of ps' (fst p) \<noteq> None)"
proof (induction ps ps' rule: classQueue.induct)
  case (1 other)
  show ?case by simp
next
  case (2 name t props other)
  show ?case
  proof (cases "map_of other name")
    case None
    with "2.prems" show ?thesis by simp
  next
    case (Some otherT)
    with "2.prems" have "length (classQueue props other) = length props" by simp
    with "2.IH"[OF Some] Some show ?thesis by simp
  qed
qed

lemma class_properties_bij:
  assumes "distinct (map fst ps)" "distinct (map fst ps')" "length ps = length ps'"
    and "length (classQueue ps ps') = length ps"
  defines "\<sigma> \<equiv> \<lambda>p. (fst p, the (map_of ps' (fst p)))"
  shows "inj_on \<sigma> (set ps)" "\<sigma> ` set ps = set ps'"
    "\<And>p. p \<in> set ps \<Longrightarrow> (snd p, snd (\<sigma> p)) \<in> set (classQueue ps ps')"
proof -
  from classQueue_full[OF assms(4)]
  have q: "classQueue ps ps' = map (\<lambda>p. (snd p, the (map_of ps' (fst p)))) ps"
    and d: "\<forall>p \<in> set ps. map_of ps' (fst p) \<noteq> None" by simp_all
  from assms(1) have "inj_on fst (set ps)" by (simp add: distinct_map)
  then show inj: "inj_on \<sigma> (set ps)"
    by (auto simp: inj_on_def \<sigma>_def)
  have sub: "\<sigma> ` set ps \<subseteq> set ps'"
  proof
    fix y assume "y \<in> \<sigma> ` set ps"
    then obtain p where p: "p \<in> set ps" "y = \<sigma> p" by blast
    with d obtain t' where "map_of ps' (fst p) = Some t'" by auto
    then have "(fst p, t') \<in> set ps'" by (rule map_of_SomeD)
    with p \<open>map_of ps' (fst p) = Some t'\<close> show "y \<in> set ps'" by (simp add: \<sigma>_def)
  qed
  from assms(1,2) have dd: "distinct ps" "distinct ps'" by (simp_all add: distinct_map)
  have "card (\<sigma> ` set ps) = card (set ps)" using inj by (rule card_image)
  also have "\<dots> = card (set ps')" using dd assms(3) by (simp add: distinct_card)
  finally show "\<sigma> ` set ps = set ps'" using sub by (simp add: card_subset_eq)
  fix p assume "p \<in> set ps"
  then show "(snd p, snd (\<sigma> p)) \<in> set (classQueue ps ps')"
    unfolding q by (auto simp: \<sigma>_def)
qed

lemma withKinds_Inr:
  "withKinds h ms = Inr ks \<Longrightarrow>
   ks = map (\<lambda>t. (kind (h ! t), t)) ms \<and> (\<forall>t \<in> set ms. t < length h)"
  by (auto simp: withKinds_def split: if_splits)

lemma withKinds_valid:
  "\<forall>t \<in> set ts. t < length h \<Longrightarrow> withKinds h ts = Inr (map (\<lambda>t. (kind (h ! t), t)) ts)"
  by (simp add: withKinds_def)

lemma fold_upd_map_of:
  "fold (\<lambda>(k, t) m. m(k \<mapsto> t)) xs m = m ++ map_of (rev xs)"
  by (induction xs arbitrary: m) (auto simp: map_add_def fun_eq_iff split: option.splits)

lemma otherByKind_SomeD: "otherByKind others k = Some t \<Longrightarrow> (k, t) \<in> set others"
  by (auto simp: otherByKind_def fold_upd_map_of dest: map_of_SomeD)

lemma unionQueue_length_le: "length (unionQueue ks byKind) \<le> length ks"
  by (induction ks byKind rule: unionQueue.induct) (auto split: option.splits)

lemma unionQueue_full:
  "length (unionQueue ks byKind) = length ks \<Longrightarrow>
   unionQueue ks byKind = map (\<lambda>p. (snd p, the (byKind (fst p)))) ks \<and>
   (\<forall>p \<in> set ks. byKind (fst p) \<noteq> None)"
proof (induction ks byKind rule: unionQueue.induct)
  case (1 byKind)
  show ?case by simp
next
  case (2 k t ts byKind)
  show ?case
  proof (cases "byKind k")
    case None
    with "2.prems" show ?thesis by simp
  next
    case (Some otherT)
    with "2.prems" have "length (unionQueue ts byKind) = length ts" by simp
    with "2.IH"[OF Some] Some show ?thesis by simp
  qed
qed

lemma union_members_bij:
  assumes "distinct (map (\<lambda>m. kind (h ! m)) ms)" "distinct (map (\<lambda>m. kind (h ! m)) ms')"
    and "length ms = length ms'"
    and "withKinds h ms = Inr mine" "withKinds h ms' = Inr others"
    and "length (unionQueue mine (otherByKind others)) = length ms"
  defines "\<tau> \<equiv> \<lambda>t. the (otherByKind others (kind (h ! t)))"
  shows "inj_on \<tau> (set ms)" "\<tau> ` set ms = set ms'"
    "\<And>t. t \<in> set ms \<Longrightarrow> (t, \<tau> t) \<in> set (unionQueue mine (otherByKind others))"
proof -
  from withKinds_Inr[OF assms(4)] have mine: "mine = map (\<lambda>t. (kind (h ! t), t)) ms" by simp
  from withKinds_Inr[OF assms(5)] have others: "others = map (\<lambda>t. (kind (h ! t), t)) ms'" by simp
  from assms(6) mine have "length (unionQueue mine (otherByKind others)) = length mine" by simp
  from unionQueue_full[OF this]
  have q: "unionQueue mine (otherByKind others) =
      map (\<lambda>p. (snd p, the (otherByKind others (fst p)))) mine"
    and d: "\<forall>p \<in> set mine. otherByKind others (fst p) \<noteq> None" by simp_all
  have img: "\<tau> t \<in> set ms' \<and> kind (h ! \<tau> t) = kind (h ! t)" if "t \<in> set ms" for t
  proof -
    from that mine have "(kind (h ! t), t) \<in> set mine" by auto
    with d obtain t' where t': "otherByKind others (kind (h ! t)) = Some t'" by fastforce
    from otherByKind_SomeD[OF this] others have "t' \<in> set ms'" "kind (h ! t') = kind (h ! t)"
      by auto
    with t' show ?thesis by (simp add: \<tau>_def)
  qed
  from assms(1) have ik: "inj_on (\<lambda>m. kind (h ! m)) (set ms)" by (simp add: distinct_map)
  show inj: "inj_on \<tau> (set ms)"
  proof (rule inj_onI)
    fix x y assume xy: "x \<in> set ms" "y \<in> set ms" "\<tau> x = \<tau> y"
    with img[of x] img[of y] have "kind (h ! x) = kind (h ! y)" by simp
    with ik xy show "x = y" by (simp add: inj_on_def)
  qed
  have sub: "\<tau> ` set ms \<subseteq> set ms'" using img by blast
  from assms(1,2) have dd: "distinct ms" "distinct ms'" by (simp_all add: distinct_map)
  have "card (\<tau> ` set ms) = card (set ms)" using inj by (rule card_image)
  also have "\<dots> = card (set ms')" using dd assms(3) by (simp add: distinct_card)
  finally show "\<tau> ` set ms = set ms'" using sub by (simp add: card_subset_eq)
  have "unionQueue mine (otherByKind others) = map (\<lambda>t. (t, \<tau> t)) ms"
    unfolding q by (simp add: mine \<tau>_def comp_def)
  moreover fix t assume "t \<in> set ms"
  ultimately show "(t, \<tau> t) \<in> set (unionQueue mine (otherByKind others))" by simp
qed

subsection \<open>Hashes agree on the pairs of a closed set\<close>

lemma wellFormedD:
  "wellFormed h \<Longrightarrow> t < length h \<Longrightarrow>
   (case h ! t of
      PrimitiveType k \<Rightarrow> True
    | ArrayType items \<Rightarrow> items < length h
    | MapType values \<Rightarrow> values < length h
    | ClassType c \<Rightarrow>
        (case p_properties c of
           None \<Rightarrow> True
         | Some props \<Rightarrow> distinct (map fst props) \<and> (\<forall>p \<in> set props. snd p < length h))
    | EnumType e \<Rightarrow> True
    | UnionType u \<Rightarrow>
        length (members u) > 1 \<and> (\<forall>m \<in> set (members u). m < t) \<and>
        distinct (map (\<lambda>m. kind (h ! m)) (members u)))"
  by (simp add: wellFormed_def)

lemma nodeAt_SomeD: "nodeAt h a = Some node \<Longrightarrow> a < length h \<and> h ! a = node"
  by (auto simp: nodeAt_def split: if_splits)

lemma wellFormed_class:
  assumes "wellFormed h" "nodeAt h a = Some (ClassType c)" "p_properties c = Some ps"
  shows "distinct (map fst ps)" "\<forall>p \<in> set ps. snd p < length h"
proof -
  from nodeAt_SomeD[OF assms(2)] have a: "a < length h" "h ! a = ClassType c" by simp_all
  from wellFormedD[OF assms(1) a(1)] a(2) assms(3)
  show "distinct (map fst ps)" "\<forall>p \<in> set ps. snd p < length h" by simp_all
qed

lemma wellFormed_union:
  assumes "wellFormed h" "nodeAt h a = Some (UnionType u)"
  shows "distinct (map (\<lambda>m. kind (h ! m)) (members u))" "length (members u) > 1"
    "\<forall>m \<in> set (members u). m < a"
proof -
  from nodeAt_SomeD[OF assms(2)] have a: "a < length h" "h ! a = UnionType u" by simp_all
  from wellFormedD[OF assms(1) a(1)] a(2)
  show "distinct (map (\<lambda>m. kind (h ! m)) (members u))" "length (members u) > 1"
    "\<forall>m \<in> set (members u). m < a" by simp_all
qed

lemma hashAgree_refl [simp]: "hashAgree H n h a a"
  by (simp add: hashAgree_def)

lemma hashAgree_okEq:
  "hashAgree H n h a b \<longleftrightarrow>
     okEq (flatHashCode H n h a) (flatHashCode H n h b) \<and>
     okEq (hashCode H n h a) (hashCode H n h b)"
  by (simp add: hashAgree_def okEq_def)

lemma okEq_class_loop:
  assumes wf: "distinct (map fst ps)" "distinct (map fst ps')" "length ps = length ps'"
    and full: "length (classQueue ps ps') = length ps"
    and agree: "\<And>t t'. (t, t') \<in> set (classQueue ps ps') \<Longrightarrow> okEq (F t) (F t')"
  shows "okEq
     (forEachAcc (\<lambda>(name, t) hash. andThen (F t) (\<lambda>f. ok (hash + f + sh name))) ps (acc :: 32 word))
     (forEachAcc (\<lambda>(name, t) hash. andThen (F t) (\<lambda>f. ok (hash + f + sh name))) ps' acc)"
proof -
  let ?\<sigma> = "\<lambda>p. (fst p, the (map_of ps' (fst p)))"
  note b = class_properties_bij[OF wf full]
  from wf have dd: "distinct ps" "distinct ps'" by (simp_all add: distinct_map)
  have "okEq
     (forEachAcc (\<lambda>p hash. andThen (F (snd p)) (\<lambda>f. ok (hash + f + sh (fst p)))) ps acc)
     (forEachAcc (\<lambda>p hash. andThen (F (snd p)) (\<lambda>f. ok (hash + f + sh (fst p)))) ps' acc)"
  proof (rule forEachAcc_bij[OF dd b(1) b(2)])
    fix p assume "p \<in> set ps"
    from b(3)[OF this] have "okEq (F (snd p)) (F (snd (?\<sigma> p)))" by (rule agree)
    then show "okEq (F (snd p)) (F (snd (?\<sigma> p))) \<and> sh (fst p) = sh (fst (?\<sigma> p))" by simp
  qed
  then show ?thesis by (simp only: case_prod_unfold)
qed

lemma okEq_union_loop:
  assumes wf: "distinct (map (\<lambda>m. kind (h ! m)) ms)" "distinct (map (\<lambda>m. kind (h ! m)) ms')"
      "length ms = length ms'"
    and wk: "withKinds h ms = Inr mine" "withKinds h ms' = Inr others"
    and full: "length (unionQueue mine (otherByKind others)) = length ms"
    and agree: "\<And>t t'. (t, t') \<in> set (unionQueue mine (otherByKind others)) \<Longrightarrow>
                  okEq (F t) (F t')"
  shows "okEq
     (forEachAcc (\<lambda>t hash. andThen (F t) (\<lambda>f. ok (hash + f))) ms (acc :: 32 word))
     (forEachAcc (\<lambda>t hash. andThen (F t) (\<lambda>f. ok (hash + f))) ms' acc)"
proof -
  note b = union_members_bij[OF wf wk full]
  from wf have dd: "distinct ms" "distinct ms'" by (simp_all add: distinct_map)
  show ?thesis
  proof (rule forEachAcc_bij0[OF dd b(1) b(2)])
    fix t assume "t \<in> set ms"
    from b(3)[OF this] show "okEq (F t) (F (the (otherByKind others (kind (h ! t)))))"
      by (rule agree)
  qed
qed


lemma hashAgree_closed:
  assumes wf: "wellFormed h" and closed: "\<forall>p \<in> S. locallyEqual h S p"
  shows "(a, b) \<in> S \<Longrightarrow> hashAgree H n h a b"
proof (induction n arbitrary: a b)
  case 0
  show ?case by (simp add: hashAgree_def)
next
  case (Suc m)
  have IHf: "okEq (flatHashCode H m h x) (flatHashCode H m h y)"
    and IHh: "okEq (hashCode H m h x) (hashCode H m h y)" if "(x, y) \<in> S" for x y
    using Suc.IH[OF that] by (simp_all add: hashAgree_okEq)
  show ?case
  proof (cases "a = b")
    case True
    then show ?thesis by simp
  next
    case False
    from closed Suc.prems have "locallyEqual h S (a, b)" by blast
    then show ?thesis using False
    proof (cases rule: locallyEqual_cases)
      case (Primitive k)
      with IHf[OF Suc.prems] show ?thesis by (simp add: hashAgree_okEq)
    next
      case (Array i i')
      with IHf[OF Suc.prems] IHh[OF Array(3)] show ?thesis
        by (simp add: hashAgree_okEq okEq_andThen)
    next
      case (Map i i')
      with IHf[OF Suc.prems] IHh[OF Map(3)] show ?thesis
        by (simp add: hashAgree_okEq okEq_andThen)
    next
      case (Enum e e')
      with IHf[OF Suc.prems] show ?thesis by (simp add: hashAgree_okEq)
    next
      case (Class c c' ps ps')
      have d: "distinct (map fst ps)" "distinct (map fst ps')"
        using wellFormed_class[OF wf Class(1) Class(4)] wellFormed_class[OF wf Class(2) Class(5)]
        by simp_all
      have loop: "okEq
         (forEachAcc (\<lambda>(name, t) hash. andThen (flatHashCode H m h t)
             (\<lambda>f. ok (hash + f + stringHash H name))) ps acc)
         (forEachAcc (\<lambda>(name, t) hash. andThen (flatHashCode H m h t)
             (\<lambda>f. ok (hash + f + stringHash H name))) ps' acc)" for acc
        by (rule okEq_class_loop[OF d Class(6) Class(7)]) (use Class(8) IHf in blast)
      have "okEq (flatHashCode H (Suc m) h a) (flatHashCode H (Suc m) h b)"
        using Class by (simp add: properties_def)
      moreover have "okEq (hashCode H (Suc m) h a) (hashCode H (Suc m) h b)"
        using Class IHf[OF Suc.prems] loop by (simp add: properties_def okEq_andThen)
      ultimately show ?thesis by (simp add: hashAgree_okEq)
    next
      case (Union u u' mine others)
      have d: "distinct (map (\<lambda>m. kind (h ! m)) (members u))"
        "distinct (map (\<lambda>m. kind (h ! m)) (members u'))"
        using wellFormed_union[OF wf Union(1)] wellFormed_union[OF wf Union(2)] by simp_all
      have loop: "okEq
         (forEachAcc (\<lambda>t hash. andThen (flatHashCode H m h t) (\<lambda>f. ok (hash + f)))
            (members u) acc)
         (forEachAcc (\<lambda>t hash. andThen (flatHashCode H m h t) (\<lambda>f. ok (hash + f)))
            (members u') acc)" for acc
        by (rule okEq_union_loop[OF d Union(4) Union(5) Union(6) Union(7)])
          (use Union(8) IHf in blast)
      have "okEq (flatHashCode H (Suc m) h a) (flatHashCode H (Suc m) h b)"
        using Union by simp
      moreover have "okEq (hashCode H (Suc m) h a) (hashCode H (Suc m) h b)"
        using Union IHf[OF Suc.prems] loop by (simp add: okEq_andThen)
      ultimately show ?thesis by (simp add: hashAgree_okEq)
    qed
  qed
qed

subsection \<open>Nodes that equals accepts\<close>

lemma everyPair_True:
  "length xs = length ys \<Longrightarrow> everyPair eq xs ys = ok True \<Longrightarrow>
   list_all2 (\<lambda>x y. x = y \<or> eq x y = ok True) xs ys"
proof (induction xs ys rule: list_induct2)
  case Nil
  show ?case by simp
next
  case (Cons x xs y ys)
  from Cons.prems obtain same where s: "isSame eq x y = ok same"
    "(if same then everyPair eq xs ys else ok False) = ok True"
    by (auto simp: andThen_eq_ok)
  then have "same" by (auto split: if_splits)
  with s have "x = y \<or> eq x y = ok True" "everyPair eq xs ys = ok True"
    by (auto simp: isSame_def split: if_splits)
  with Cons.IH show ?case by simp
qed

lemma forEachAcc_pointwise:
  assumes "list_all2 (\<lambda>x y. okEq (w x) (w y)) xs ys"
  shows "okEq (forEachAcc (\<lambda>t hash. andThen (w t) (\<lambda>f. ok (hash + f))) xs (acc :: 32 word))
              (forEachAcc (\<lambda>t hash. andThen (w t) (\<lambda>f. ok (hash + f))) ys acc)"
  using assms
proof (induction xs ys arbitrary: acc rule: list_all2_induct)
  case Nil
  show ?case by simp
next
  case (Cons x xs y ys)
  show ?case
    using Cons.hyps(1) Cons.IH by (simp add: okEq_andThen)
qed

lemma flatHashCode_union:
  "nodeAt h a = Some (UnionType u) \<Longrightarrow>
   flatHashCode H n h a =
     (if n = 0 then None
      else ok (stringHash H ''union'' + namesHash H (p_names u) + of_nat (length (members u))))"
  by (cases n) simp_all

lemma equals_hashAgree:
  assumes wf: "wellFormed h"
  shows "equals H k h a b = ok True \<Longrightarrow> hashAgree H n h a b"
proof (induction k arbitrary: a b n)
  case 0
  then show ?case by (simp add: equals.simps)
next
  case (Suc k)
  show ?case
  proof (cases "\<exists>u. nodeAt h a = Some (UnionType u)")
    case False
    with Suc.prems have "typesEqual H k h a b = ok True"
      by (auto simp: equals.simps split: option.splits typeNode.splits)
    from typesEqual_sound[OF this] obtain S where "(a, b) \<in> S" "\<forall>p \<in> S. locallyEqual h S p"
      by blast
    then show ?thesis using hashAgree_closed[OF wf] by blast
  next
    case True
    then obtain u where u: "nodeAt h a = Some (UnionType u)" by blast
    with Suc.prems obtain u' where u': "nodeAt h b = Some (UnionType u')"
      and names: "p_names u = p_names u'"
      and ms: "orderedSetEquals (equals H k h) (members u) (members u') = ok True"
      by (auto simp: equals.simps split: option.splits typeNode.splits if_splits)
    from ms have len: "length (members u) = length (members u')"
      and ep: "everyPair (equals H k h) (members u) (members u') = ok True"
      by (auto simp: orderedSetEquals_def split: if_splits)
    from everyPair_True[OF len ep]
    have "list_all2 (\<lambda>x y. x = y \<or> equals H k h x y = ok True) (members u) (members u')" .
    then have agree: "list_all2 (\<lambda>x y. hashAgree H m h x y) (members u) (members u')" for m
      by (rule list_all2_mono) (use Suc.IH in auto)
    show ?thesis
    proof (cases n)
      case 0
      then show ?thesis by (simp add: hashAgree_def)
    next
      case n: (Suc m)
      have f: "flatHashCode H j h a = flatHashCode H j h b" for j
        using u u' names len by (simp add: flatHashCode_union)
      have "list_all2 (\<lambda>x y. okEq (flatHashCode H m h x) (flatHashCode H m h y))
              (members u) (members u')"
        by (rule list_all2_mono[OF agree[of m]]) (simp add: hashAgree_okEq)
      from forEachAcc_pointwise[OF this]
      have "okEq (hashCode H (Suc m) h a) (hashCode H (Suc m) h b)"
        using u u' f[of m] by (simp add: okEq_andThen)
      with f[of "Suc m"] n show ?thesis by (simp add: hashAgree_okEq)
    qed
  qed
qed

text \<open>
  C2, as stated, fails where a union has two members of one kind. expandForEquality pairs
  the members of two unions by their kinds (l. 375-390), so the two enums of the first
  union are both paired with the last enum of the second, to which they are equal, and the
  two arrays of the unions are equal; the hashes add up the members, and the first enum of
  the second union has another hash.
\<close>

theorem equal_nodes_with_different_hashes:
  "equals exampleHashing 5 twoOfAKindHeap 5 6 = ok True \<and>
   hashCode exampleHashing 4 twoOfAKindHeap 5 = ok 25 \<and>
   hashCode exampleHashing 4 twoOfAKindHeap 6 = ok 26"
proof (intro conjI)
  show "equals exampleHashing 5 twoOfAKindHeap 5 6 = ok True"
    by (simp add: equals.simps twoOfAKindHeap_def typesEqual_def expandForEquality_def
        nodeAt_def alreadySeen_def numeral_nat withKinds_def otherByKind_def exampleHashing_def)
  show "hashCode exampleHashing 4 twoOfAKindHeap 5 = ok 25"
    by (simp add: twoOfAKindHeap_def nodeAt_def numeral_nat exampleHashing_def)
  show "hashCode exampleHashing 4 twoOfAKindHeap 6 = ok 26"
    by (simp add: twoOfAKindHeap_def nodeAt_def numeral_nat exampleHashing_def)
qed

text \<open>
  C2, amended. On a well-formed heap, where the members of every union are of pairwise
  distinct kinds, when a.equals(b) is true, a.hashCode() and b.hashCode() return the same
  value: with any fuel, one returns a value exactly when the other returns that value (and
  where the one does not return, the other does not either).
\<close>

theorem equal_nodes_have_equal_hashes:
  assumes "wellFormed h" and "equals H k h a b = ok True"
  shows "hashCode H n h a = ok v \<longleftrightarrow> hashCode H n h b = ok v"
  using equals_hashAgree[OF assms] by (simp add: hashAgree_def)

lemma wellFormed_selfCycleHeap: "wellFormed selfCycleHeap"
  by (simp add: wellFormed_def selfCycleHeap_def less_Suc_eq)

theorem equal_nodes_have_equal_hashes_witness:
  "wellFormed selfCycleHeap \<and> equals exampleHashing 5 selfCycleHeap 0 1 = ok True \<and>
   hashCode exampleHashing 3 selfCycleHeap 0 = ok 18 \<and>
   hashCode exampleHashing 3 selfCycleHeap 1 = ok 18"
proof -
  have e: "equals exampleHashing 5 selfCycleHeap 0 1 = ok True"
    by (simp add: equals.simps selfCycleHeap_def typesEqual_def expandForEquality_def
        nodeAt_def properties_def alreadySeen_def numeral_nat)
  have h: "hashCode exampleHashing 3 selfCycleHeap 0 = ok 18"
    by (simp add: selfCycleHeap_def nodeAt_def properties_def numeral_nat exampleHashing_def)
  from equal_nodes_have_equal_hashes[OF wellFormed_selfCycleHeap e, of 3 18] h
  have "hashCode exampleHashing 3 selfCycleHeap 1 = ok 18" by simp
  with wellFormed_selfCycleHeap e h show ?thesis by simp
qed

text \<open>
  The converse fails, whatever the hashing: the hash of a class looks one level down only,
  so the two classes P of the example have one hash and are not equal.
\<close>

lemma equal_hashes_of_unequal_nodes:
  "hashCode H (Suc (Suc (Suc n))) nestedDifferenceHeap 4 =
     hashCode H (Suc (Suc (Suc n))) nestedDifferenceHeap 5 \<and>
   (\<exists>v. hashCode H (Suc (Suc (Suc n))) nestedDifferenceHeap 4 = ok v) \<and>
   equals H (Suc (Suc (Suc (Suc (Suc (Suc (Suc n))))))) nestedDifferenceHeap 4 5 = ok False"
  by (simp add: equals.simps nestedDifferenceHeap_def nodeAt_def properties_def typesEqual_def
      expandForEquality_def alreadySeen_def)

section \<open>The maps of Immutable.js\<close>

subsection \<open>Calls that return\<close>

lemma isSame_eqOK:
  "eqOK eq V \<Longrightarrow> a \<in> V \<Longrightarrow> b \<in> V \<Longrightarrow> isSame eq a b = ok (a = b)"
  by (simp add: eqOK_def isSame_def)

lemma findKey_ok:
  assumes "eqOK eq V" "key \<in> V"
  shows "fst ` set entries \<subseteq> V \<Longrightarrow>
    \<exists>idx. findKey eq key entries = ok idx \<and>
      (case idx of None \<Rightarrow> key \<notin> fst ` set entries
       | Some i \<Rightarrow> i < length entries \<and> fst (entries ! i) = key)"
proof (induction entries)
  case Nil
  show ?case by simp
next
  case (Cons e es)
  then have e: "fst e \<in> V" and es: "fst ` set es \<subseteq> V" by auto
  note s = isSame_eqOK[OF assms e]
  show ?case
  proof (cases "key = fst e")
    case True
    with s show ?thesis by simp
  next
    case False
    from Cons.IH[OF es] obtain idx where "findKey eq key es = ok idx"
      "case idx of None \<Rightarrow> key \<notin> fst ` set es
       | Some i \<Rightarrow> i < length es \<and> fst (es ! i) = key" by blast
    with False s show ?thesis by (cases idx) auto
  qed
qed

lemma set_putEntry:
  "(case idx of None \<Rightarrow> True | Some i \<Rightarrow> i < length entries) \<Longrightarrow>
   set (putEntry entries idx key v) \<subseteq> insert (key, v) (set entries)"
  by (cases idx) (auto simp: putEntry_def dest: set_update_subset_insert[THEN subsetD])

lemma putEntry_None [simp]: "putEntry entries None key v = entries @ [(key, v)]"
  by (simp add: putEntry_def)

lemma trieEntries_merge:
  "\<forall>nodes. node \<noteq> BitmapIndexedNode nodes \<Longrightarrow>
   trieEntries (mergeIntoNode node shift keyHash entry) = insert entry (trieEntries node)"
proof (induction node shift keyHash entry rule: mergeIntoNode.induct)
  case (1 node shift keyHash entry)
  show ?case
  proof (cases "keyHashOf node = keyHash \<or> 30 < shift")
    case True
    with 1(2) show ?thesis by (cases node) (auto simp: mergeIntoNode.simps)
  next
    case False
    show ?thesis
    proof (cases "fragment shift (keyHashOf node) = fragment shift keyHash")
      case True
      from 1(1)[OF False refl refl True 1(2)] False True
      show ?thesis by (subst mergeIntoNode.simps) simp
    next
      case ne: False
      with False show ?thesis by (subst mergeIntoNode.simps) (auto simp: Let_def)
    qed
  qed
qed

lemma trieKeys_simps [simp]:
  "trieKeys (ValueNode kh entry) = {fst entry}"
  "trieKeys (HashCollisionNode kh entries) = fst ` set entries"
  "trieKeys (BitmapIndexedNode nodes) = (\<Union>node \<in> snd ` set nodes. trieKeys node)"
  by (auto simp: trieKeys_def)

lemma set_insertNode [simp]: "set (insertNode i node nodes) = insert (i, node) (set nodes)"
  by (simp add: insertNode_def set_insort_key)

lemma trieEntries_replaceNode:
  "(\<Union>n \<in> snd ` set (replaceNode i node nodes). trieEntries n) \<subseteq>
   trieEntries node \<union> (\<Union>n \<in> snd ` set nodes. trieEntries n)"
  by (auto simp: replaceNode_def split: if_splits)

lemma hashOfKey_ok:
  "hs key = ok hk \<Longrightarrow> \<exists>kh. hashOfKey hs keyHash key = ok kh"
  by (cases keyHash) (simp_all add: hashOfKey_def)

lemma trieGet_ok:
  assumes "eqOK eq V" "key \<in> V" "hs key = ok hk"
  shows "trieKeys node \<subseteq> V \<Longrightarrow>
    \<exists>r. trieGet eq hs node shift keyHash key = ok r \<and> (key \<notin> trieKeys node \<longrightarrow> r = None)"
proof (induction node arbitrary: shift keyHash)
  case (ValueNode kh entry)
  then have "fst entry \<in> V" by simp
  from isSame_eqOK[OF assms(1,2) this] show ?case by simp
next
  case (HashCollisionNode kh entries)
  then have "fst ` set entries \<subseteq> V" by simp
  from findKey_ok[OF assms(1,2) this] obtain idx where "findKey eq key entries = ok idx"
    "case idx of None \<Rightarrow> key \<notin> fst ` set entries
       | Some i \<Rightarrow> i < length entries \<and> fst (entries ! i) = key" by blast
  then show ?case by (cases idx) auto
next
  case (BitmapIndexedNode nodes)
  from hashOfKey_ok[where hs = hs and key = key and keyHash = keyHash, OF assms(3)] obtain kh where kh: "hashOfKey hs keyHash key = ok kh" by blast
  show ?case
  proof (cases "map_of nodes (fragment shift kh)")
    case None
    with kh show ?thesis by (simp add: ok_def)
  next
    case (Some node)
    then have m: "(fragment shift kh, node) \<in> set nodes" by (rule map_of_SomeD)
    then have n: "node \<in> snd ` set nodes" by force
    with BitmapIndexedNode.prems have "trieKeys node \<subseteq> V" by auto
    from BitmapIndexedNode.IH[OF m _ this, of "shift + 5" "Some kh"]
    obtain r where "trieGet eq hs node (shift + 5) (Some kh) key = ok r"
      "key \<notin> trieKeys node \<longrightarrow> r = None" by auto
    with kh Some n show ?thesis by (auto simp: ok_def)
  qed
qed

lemma trieUpdate_ok:
  assumes "eqOK eq V" "key \<in> V" "hs key = ok hk"
  shows "trieKeys node \<subseteq> V \<Longrightarrow>
    \<exists>node'. trieUpdate eq hs node shift keyHash key v = ok node' \<and>
      trieEntries node' \<subseteq> insert (key, v) (trieEntries node)"
proof (induction node arbitrary: shift keyHash)
  case (ValueNode kh entry)
  then have "fst entry \<in> V" by simp
  from isSame_eqOK[OF assms(1,2) this] assms(3) show ?case
    by (auto simp: trieEntries_merge)
next
  case (HashCollisionNode kh entries)
  then have "fst ` set entries \<subseteq> V" by simp
  from findKey_ok[OF assms(1,2) this] obtain idx where idx: "findKey eq key entries = ok idx"
    "case idx of None \<Rightarrow> key \<notin> fst ` set entries
       | Some i \<Rightarrow> i < length entries \<and> fst (entries ! i) = key" by blast
  then have "case idx of None \<Rightarrow> True | Some i \<Rightarrow> i < length entries"
    by (cases idx) auto
  note p = set_putEntry[OF this, of key v]
  from hashOfKey_ok[where hs = hs and key = key and keyHash = keyHash, OF assms(3)] obtain h where h: "hashOfKey hs keyHash key = ok h" by blast
  show ?case
  proof (cases "h = kh")
    case True
    with h idx(1) p show ?thesis by simp
  next
    case False
    with h show ?thesis by (simp add: trieEntries_merge)
  qed
next
  case (BitmapIndexedNode nodes)
  from hashOfKey_ok[where hs = hs and key = key and keyHash = keyHash, OF assms(3)] obtain h where h: "hashOfKey hs keyHash key = ok h" by blast
  show ?case
  proof (cases "map_of nodes (fragment shift h)")
    case None
    with h show ?thesis by (auto simp: ok_def)
  next
    case (Some node)
    then have m: "(fragment shift h, node) \<in> set nodes" by (rule map_of_SomeD)
    then have n: "node \<in> snd ` set nodes" by force
    with BitmapIndexedNode.prems have "trieKeys node \<subseteq> V" by auto
    from BitmapIndexedNode.IH[OF m _ this, of "shift + 5" "Some h"]
    obtain node' where u: "trieUpdate eq hs node (shift + 5) (Some h) key v = ok node'"
      "trieEntries node' \<subseteq> insert (key, v) (trieEntries node)" by auto
    have "trieEntries (BitmapIndexedNode (replaceNode (fragment shift h) node' nodes)) \<subseteq>
        insert (key, v) (trieEntries (BitmapIndexedNode nodes))"
      using trieEntries_replaceNode[of "fragment shift h" node' nodes] u(2) n by auto
    with h Some u(1) show ?thesis by (simp add: ok_def)
  qed
qed


lemma findKey_absent:
  assumes "eqOK eq V" "key \<in> V" "fst ` set entries \<subseteq> V" "key \<notin> fst ` set entries"
  shows "findKey eq key entries = ok None"
proof -
  from findKey_ok[OF assms(1,2,3)] obtain idx where idx: "findKey eq key entries = ok idx"
    "case idx of None \<Rightarrow> key \<notin> fst ` set entries
       | Some i \<Rightarrow> i < length entries \<and> fst (entries ! i) = key" by blast
  show ?thesis
  proof (cases idx)
    case None
    with idx show ?thesis by simp
  next
    case (Some i)
    with idx(2) have "i < length entries" "fst (entries ! i) = key" by simp_all
    then have "key \<in> fst ` set entries" by (metis imageI nth_mem)
    with assms(4) show ?thesis by simp
  qed
qed

lemma forEachAcc_trieUpdate_ok:
  assumes "eqOK eq V" "hsOK hs (fst ` set entries)"
  shows "fst ` set entries \<subseteq> V \<Longrightarrow> trieKeys node \<subseteq> V \<Longrightarrow>
    \<exists>node'. forEachAcc (\<lambda>entry node. trieUpdate eq hs node 0 None (fst entry) (snd entry))
        entries node = ok node' \<and>
      trieEntries node' \<subseteq> trieEntries node \<union> set entries"
  using assms(2)
proof (induction entries arbitrary: node)
  case Nil
  show ?case by simp
next
  case (Cons e es)
  then have e: "fst e \<in> V" and es: "fst ` set es \<subseteq> V" by auto
  from Cons.prems(3) obtain hk where hk: "hs (fst e) = ok hk" by (auto simp: hsOK_def)
  from trieUpdate_ok[where hs = hs and key = "fst e" and shift = 0 and keyHash = None
      and v = "snd e", OF assms(1) e hk Cons.prems(2)]
  obtain node1 where 1: "trieUpdate eq hs node 0 None (fst e) (snd e) = ok node1"
    "trieEntries node1 \<subseteq> insert e (trieEntries node)" by auto
  from 1(2) e Cons.prems(2) have k1: "trieKeys node1 \<subseteq> V" by (auto simp: trieKeys_def)
  from Cons.prems(3) have "hsOK hs (fst ` set es)" by (simp add: hsOK_def)
  from Cons.IH[OF es k1 this] obtain node' where
    "forEachAcc (\<lambda>entry node. trieUpdate eq hs node 0 None (fst entry) (snd entry))
        es node1 = ok node'" "trieEntries node' \<subseteq> trieEntries node1 \<union> set es" by blast
  with 1 show ?case by auto
qed

lemma createNodes_ok:
  assumes "eqOK eq V" "key \<in> V" "hs key = ok hk" "fst ` set entries \<subseteq> V"
    "hsOK hs (fst ` set entries)"
  shows "\<exists>node. createNodes eq hs entries key v = ok node \<and>
    trieEntries node \<subseteq> insert (key, v) (set entries)"
proof -
  have "trieKeys (ValueNode hk (key, v)) \<subseteq> V" using assms(2) by simp
  from forEachAcc_trieUpdate_ok[OF assms(1,5,4) this] assms(3)
  show ?thesis by (auto simp: createNodes_def)
qed

lemma mapGet_absent:
  assumes "eqOK eq V" "key \<in> V" "mapKeys root \<subseteq> V" "key \<notin> mapKeys root"
    and "\<forall>node. root = Some (TrieNode node) \<longrightarrow> (\<exists>hk. hs key = ok hk)"
  shows "mapGet eq hs root key = ok None"
proof (cases root)
  case None
  then show ?thesis by (simp add: mapGet_def)
next
  case (Some r)
  show ?thesis
  proof (cases r)
    case (ArrayMapNode entries)
    with Some assms(3,4) have "fst ` set entries \<subseteq> V" "key \<notin> fst ` set entries"
      by (simp_all add: mapKeys_def mapEntries_def)
    with findKey_absent[OF assms(1,2)] have "findKey eq key entries = ok None" by blast
    with Some ArrayMapNode show ?thesis by (simp add: mapGet_def)
  next
    case (TrieNode node)
    with Some assms(5) obtain hk where hk: "hs key = ok hk" by auto
    from Some TrieNode assms(3,4) have "trieKeys node \<subseteq> V" "key \<notin> trieKeys node"
      by (simp_all add: mapKeys_def mapEntries_def trieKeys_def)
    with trieGet_ok[where hs = hs and key = key and node = node and shift = 0
        and keyHash = None, OF assms(1,2) hk] Some TrieNode show ?thesis
      by (auto simp: mapGet_def)
  qed
qed

lemma mapSet_absent:
  assumes "eqOK eq V" "key \<in> V" "mapKeys root \<subseteq> V" "key \<notin> mapKeys root"
    and "hashesKeys root \<longrightarrow> (\<exists>hk. hs key = ok hk)"
    and "\<forall>entries. root = Some (ArrayMapNode entries) \<and> 8 \<le> length entries \<longrightarrow>
           hsOK hs (fst ` set entries)"
  shows "\<exists>root'. mapSet eq hs root key v = ok root' \<and>
    mapEntries root' \<subseteq> insert (key, v) (mapEntries root) \<and>
    (case root' of
       None \<Rightarrow> False
     | Some (TrieNode node) \<Rightarrow> hashesKeys root
     | Some (ArrayMapNode entries') \<Rightarrow>
         (case root of
            None \<Rightarrow> entries' = [(key, v)]
          | Some (ArrayMapNode entries) \<Rightarrow> entries' = entries @ [(key, v)]
          | Some (TrieNode node) \<Rightarrow> False))"
proof (cases root)
  case None
  then show ?thesis by (simp add: mapSet_def mapEntries_def)
next
  case (Some r)
  show ?thesis
  proof (cases r)
    case (ArrayMapNode entries)
    with Some assms(3,4) have k: "fst ` set entries \<subseteq> V" "key \<notin> fst ` set entries"
      by (simp_all add: mapKeys_def mapEntries_def)
    with findKey_absent[OF assms(1,2)] have f: "findKey eq key entries = ok None" by blast
    show ?thesis
    proof (cases "8 \<le> length entries")
      case True
      with Some ArrayMapNode assms(5,6) obtain hk where hk: "hs key = ok hk"
        and hs: "hsOK hs (fst ` set entries)" by (auto simp: hashesKeys_def)
      from createNodes_ok[where hs = hs and key = key and v = v, OF assms(1,2) hk k(1) hs] obtain node where
        "createNodes eq hs entries key v = ok node"
        "trieEntries node \<subseteq> insert (key, v) (set entries)" by blast
      with Some ArrayMapNode f True show ?thesis
        by (simp add: mapSet_def mapEntries_def hashesKeys_def)
    next
      case False
      with Some ArrayMapNode f show ?thesis by (auto simp: mapSet_def mapEntries_def)
    qed
  next
    case (TrieNode node)
    with Some assms(5) obtain hk where hk: "hs key = ok hk" by (auto simp: hashesKeys_def)
    from Some TrieNode assms(3) have "trieKeys node \<subseteq> V"
      by (simp add: mapKeys_def mapEntries_def trieKeys_def)
    from trieUpdate_ok[where hs = hs and key = key and shift = 0 and keyHash = None
        and v = v, OF assms(1,2) hk this] obtain node' where
      "trieUpdate eq hs node 0 None key v = ok node'"
      "trieEntries node' \<subseteq> insert (key, v) (trieEntries node)" by blast
    with Some TrieNode show ?thesis by (simp add: mapSet_def mapEntries_def hashesKeys_def)
  qed
qed

subsection \<open>Ordered sets: adding a new element\<close>

lemma holdsElements_keys:
  assumes "holdsElements s"
  shows "mapKeys (oMap s) \<subseteq> set (oList s)"
proof (cases "oMap s")
  case None
  then show ?thesis by (simp add: mapKeys_def mapEntries_def)
next
  case (Some r)
  show ?thesis
  proof (cases r)
    case (ArrayMapNode entries)
    with Some assms have "map fst entries = oList s" by (simp add: holdsElements_def)
    then have "fst ` set entries = set (oList s)" by (metis set_map)
    with Some ArrayMapNode show ?thesis by (simp add: mapKeys_def mapEntries_def)
  next
    case (TrieNode node)
    with Some assms show ?thesis
      by (simp add: holdsElements_def mapKeys_def mapEntries_def trieKeys_def)
  qed
qed

lemma nodeSet_add_new:
  assumes eq: "eqOK (equals H n h) V" and t: "t \<in> V" "t \<notin> set (oList s)"
    and s: "set (oList s) \<subseteq> V" "holdsElements s"
    and hk: "hashesKeys (oMap s) \<longrightarrow> (\<exists>hk. hashOfNode H n h t = ok hk)"
    and hs: "\<forall>entries. oMap s = Some (ArrayMapNode entries) \<and> 8 \<le> length entries \<longrightarrow>
           hsOK (hashOfNode H n h) (set (oList s))"
  shows "\<exists>m. nodeSet_add H n h s t = ok \<lparr>oMap = m, oList = oList s @ [t]\<rparr> \<and>
    holdsElements \<lparr>oMap = m, oList = oList s @ [t]\<rparr> \<and>
    (case m of Some (TrieNode node) \<Rightarrow> hashesKeys (oMap s) | _ \<Rightarrow> True)"
proof -
  note k = holdsElements_keys[OF s(2)]
  from k s(1) have kV: "mapKeys (oMap s) \<subseteq> V" by auto
  from k t(2) have absent: "t \<notin> mapKeys (oMap s)" by auto
  have "\<forall>node. oMap s = Some (TrieNode node) \<longrightarrow> (\<exists>hk. hashOfNode H n h t = ok hk)"
    using hk by (auto simp: hashesKeys_def)
  from mapGet_absent[where eq = "equals H n h" and hs = "hashOfNode H n h" and key = t
      and root = "oMap s", OF eq t(1) kV absent this]
  have g: "mapGet (equals H n h) (hashOfNode H n h) (oMap s) t = ok None" .
  have "\<forall>entries. oMap s = Some (ArrayMapNode entries) \<and> 8 \<le> length entries \<longrightarrow>
           hsOK (hashOfNode H n h) (fst ` set entries)"
  proof (intro allI impI)
    fix entries assume a: "oMap s = Some (ArrayMapNode entries) \<and> 8 \<le> length entries"
    with hs have "hsOK (hashOfNode H n h) (set (oList s))" by blast
    moreover from a s(2) have "map fst entries = oList s" by (simp add: holdsElements_def)
    then have "fst ` set entries = set (oList s)" by (metis set_map)
    ultimately show "hsOK (hashOfNode H n h) (fst ` set entries)" by simp
  qed
  from mapSet_absent[where eq = "equals H n h" and hs = "hashOfNode H n h" and key = t
      and root = "oMap s" and v = "length (oList s)", OF eq t(1) kV absent hk this]
  obtain m where m: "mapSet (equals H n h) (hashOfNode H n h) (oMap s) t (length (oList s)) = ok m"
    "mapEntries m \<subseteq> insert (t, length (oList s)) (mapEntries (oMap s))"
    "case m of
       None \<Rightarrow> False
     | Some (TrieNode node) \<Rightarrow> hashesKeys (oMap s)
     | Some (ArrayMapNode entries') \<Rightarrow>
         (case oMap s of
            None \<Rightarrow> entries' = [(t, length (oList s))]
          | Some (ArrayMapNode entries) \<Rightarrow> entries' = entries @ [(t, length (oList s))]
          | Some (TrieNode node) \<Rightarrow> False)" by blast
  have "holdsElements \<lparr>oMap = m, oList = oList s @ [t]\<rparr>"
  proof (cases m)
    case None
    with m(3) show ?thesis by simp
  next
    case (Some r)
    show ?thesis
    proof (cases r)
      case (ArrayMapNode entries')
      with Some m(3) s(2) show ?thesis
        by (auto simp: holdsElements_def split: option.splits mapNode.splits)
    next
      case (TrieNode node)
      from m(2) have "mapKeys m \<subseteq> insert t (mapKeys (oMap s))"
        unfolding mapKeys_def by auto
      moreover have "mapKeys m = trieKeys node"
        using Some TrieNode by (simp add: mapKeys_def mapEntries_def trieKeys_def)
      ultimately have "trieKeys node \<subseteq> insert t (set (oList s))" using k by auto
      with Some TrieNode show ?thesis by (auto simp: holdsElements_def)
    qed
  qed
  moreover have "case m of Some (TrieNode node) \<Rightarrow> hashesKeys (oMap s) | _ \<Rightarrow> True"
    using m(3) by (auto split: option.splits mapNode.splits)
  ultimately show ?thesis using g m(1) by (simp add: nodeSet_add_def)
qed


lemma holdsElements_hashesKeys:
  assumes "holdsElements s" "\<forall>node. oMap s \<noteq> Some (TrieNode node)" "hashesKeys (oMap s)"
  shows "8 \<le> length (oList s)"
proof -
  from assms(2,3) obtain entries where e: "oMap s = Some (ArrayMapNode entries)"
    "8 \<le> length entries"
    by (cases "oMap s") (auto simp: hashesKeys_def split: mapNode.splits)
  with assms(1) have "map fst entries = oList s" by (simp add: holdsElements_def)
  then have "length entries = length (oList s)" by (metis length_map)
  with e(2) show ?thesis by simp
qed

lemma forEachAcc_nodeSet_add_new:
  assumes eq: "eqOK (equals H n h) V"
  shows "set (oList s) \<union> set xs \<subseteq> V \<Longrightarrow> distinct (oList s @ xs) \<Longrightarrow> holdsElements s \<Longrightarrow>
    (hashesKeys (oMap s) \<longrightarrow> 8 \<le> length (oList s)) \<Longrightarrow>
    (8 < length (oList s @ xs) \<longrightarrow> hsOK (hashOfNode H n h) (set (oList s @ xs))) \<Longrightarrow>
    \<exists>m. forEachAcc (\<lambda>t s. nodeSet_add H n h s t) xs s = ok \<lparr>oMap = m, oList = oList s @ xs\<rparr> \<and>
      holdsElements \<lparr>oMap = m, oList = oList s @ xs\<rparr>"
proof (induction xs arbitrary: s)
  case Nil
  have "s = \<lparr>oMap = oMap s, oList = oList s\<rparr>" by simp
  with Nil(3) show ?case by (metis append_Nil2 forEachAcc.simps(1))
next
  case (Cons x xs)
  from Cons.prems(1,2) have x: "x \<in> V" "x \<notin> set (oList s)" and sV: "set (oList s) \<subseteq> V"
    by auto
  have hk: "hashesKeys (oMap s) \<longrightarrow> (\<exists>hk. hashOfNode H n h x = ok hk)"
  proof
    assume "hashesKeys (oMap s)"
    with Cons.prems(4) have "8 < length (oList s @ x # xs)" by simp
    with Cons.prems(5) have "hsOK (hashOfNode H n h) (set (oList s @ x # xs))" by blast
    then show "\<exists>hk. hashOfNode H n h x = ok hk" by (simp add: hsOK_def)
  qed
  have hs: "\<forall>entries. oMap s = Some (ArrayMapNode entries) \<and> 8 \<le> length entries \<longrightarrow>
           hsOK (hashOfNode H n h) (set (oList s))"
  proof (intro allI impI)
    fix entries assume a: "oMap s = Some (ArrayMapNode entries) \<and> 8 \<le> length entries"
    then have "hashesKeys (oMap s)" by (simp add: hashesKeys_def)
    with Cons.prems(4) have "8 < length (oList s @ x # xs)" by simp
    with Cons.prems(5) have "hsOK (hashOfNode H n h) (set (oList s @ x # xs))" by blast
    then show "hsOK (hashOfNode H n h) (set (oList s))" by (simp add: hsOK_def)
  qed
  from nodeSet_add_new[OF eq x sV Cons.prems(3) hk hs] obtain m where
    m: "nodeSet_add H n h s x = ok \<lparr>oMap = m, oList = oList s @ [x]\<rparr>"
      "holdsElements \<lparr>oMap = m, oList = oList s @ [x]\<rparr>"
      "case m of Some (TrieNode node) \<Rightarrow> hashesKeys (oMap s) | _ \<Rightarrow> True" by blast
  let ?s1 = "\<lparr>oMap = m, oList = oList s @ [x]\<rparr>"
  have inv: "hashesKeys (oMap ?s1) \<longrightarrow> 8 \<le> length (oList ?s1)"
  proof
    assume hh: "hashesKeys (oMap ?s1)"
    show "8 \<le> length (oList ?s1)"
    proof (cases "\<exists>node. m = Some (TrieNode node)")
      case True
      with m(3) have "hashesKeys (oMap s)" by auto
      with Cons.prems(4) show ?thesis by simp
    next
      case False
      with holdsElements_hashesKeys[OF m(2) _ hh] show ?thesis by simp
    qed
  qed
  have "\<exists>m'. forEachAcc (\<lambda>t s. nodeSet_add H n h s t) xs ?s1 =
        ok \<lparr>oMap = m', oList = oList ?s1 @ xs\<rparr> \<and>
      holdsElements \<lparr>oMap = m', oList = oList ?s1 @ xs\<rparr>"
    by (rule Cons.IH) (use Cons.prems m(2) inv in simp_all)
  with m(1) show ?case by simp
qed

lemma nodeSet_of_new:
  assumes "eqOK (equals H n h) V" "set xs \<subseteq> V" "distinct xs"
    "8 < length xs \<longrightarrow> hsOK (hashOfNode H n h) (set xs)"
  shows "\<exists>m. nodeSet_of H n h xs = ok \<lparr>oMap = m, oList = xs\<rparr> \<and>
    holdsElements \<lparr>oMap = m, oList = xs\<rparr>"
  using forEachAcc_nodeSet_add_new[OF assms(1), of emptyOrderedSet xs] assms(2-)
  by (simp add: nodeSet_of_def emptyOrderedSet_def holdsElements_def hashesKeys_def)


subsection \<open>The trie holds every key where get looks for it\<close>

lemma fragment_bit:
  assumes "j < 7" "i < 5"
  shows "bit (fragment (5 * j) w) i \<longleftrightarrow> bit w (5 * j + i)"
proof -
  from assms(1) have "(5 * j) mod 32 = 5 * j" by simp
  then have "fragment (5 * j) w = unat (take_bit 5 (drop_bit (5 * j) w))"
    by (simp add: fragment_def)
  then show ?thesis using assms(2)
    by (simp add: bit_unsigned_iff bit_take_bit_iff bit_drop_bit_eq)
qed

lemma fragments_eq:
  fixes a b :: "32 word"
  assumes "\<forall>j < 7. fragment (5 * j) a = fragment (5 * j) b"
  shows "a = b"
proof (rule bit_word_eqI)
  fix n assume "n < LENGTH(32)"
  then have n: "n < 32" by simp
  let ?j = "n div 5" and ?i = "n mod 5"
  from n have j: "?j < 7" by simp
  have i: "?i < 5" by simp
  have e: "5 * ?j + ?i = n" by simp
  from assms j have "fragment (5 * ?j) a = fragment (5 * ?j) b" by blast
  then have "bit (fragment (5 * ?j) a) ?i \<longleftrightarrow> bit (fragment (5 * ?j) b) ?i" by simp
  then show "bit a n \<longleftrightarrow> bit b n"
    unfolding fragment_bit[OF j i] e .
qed


lemma pathOK_leaf:
  "\<forall>nodes. node \<noteq> BitmapIndexedNode nodes \<Longrightarrow> pathOK hv s node \<Longrightarrow> pathOK hv s' node"
  by (cases node) auto

lemma mergeIntoNode_pathOK:
  assumes leaf: "\<forall>nodes. node \<noteq> BitmapIndexedNode nodes"
    and hk: "\<forall>e \<in> trieEntries node. hv (fst e) = keyHashOf node"
    and he: "hv (fst entry) = h"
  shows "shift = 5 * d \<Longrightarrow> pathOK hv shift node \<Longrightarrow>
    \<forall>j < d. fragment (5 * j) (keyHashOf node) = fragment (5 * j) h \<Longrightarrow>
    pathOK hv shift (mergeIntoNode node shift h entry)"
  using leaf hk he
proof (induction node shift h entry arbitrary: d rule: mergeIntoNode.induct)
  case (1 node shift keyHash entry)
  note leaf = 1(5) and hk = 1(6) and he = 1(7)
  show ?case
  proof (cases "keyHashOf node = keyHash")
    case True
    have "pathOK hv shift (HashCollisionNode keyHash (heldEntries node @ [entry]))"
      using leaf hk True he by (cases node) auto
    with True show ?thesis by (subst mergeIntoNode.simps) simp
  next
    case ne: False
    have small: "\<not> 30 < shift"
    proof
      assume "30 < shift"
      with 1(2) have "7 \<le> d" by simp
      with 1(4) have "\<forall>j < 7. fragment (5 * j) (keyHashOf node) = fragment (5 * j) keyHash"
        by simp
      from fragments_eq[OF this] ne show False by simp
    qed
    with ne have g: "\<not> (keyHashOf node = keyHash \<or> 30 < shift)" by simp
    let ?i1 = "fragment shift (keyHashOf node)" and ?i2 = "fragment shift keyHash"
    have near: "\<forall>e \<in> trieEntries node. fragment shift (hv (fst e)) = ?i1" using hk by simp
    show ?thesis
    proof (cases "?i1 = ?i2")
      case True
      have "\<forall>j < Suc d. fragment (5 * j) (keyHashOf node) = fragment (5 * j) keyHash"
        using 1(4) True 1(2) by (auto simp: less_Suc_eq)
      moreover have "shift + 5 = 5 * Suc d" using 1(2) by simp
      moreover note pathOK_leaf[OF leaf 1(3), of "shift + 5"]
      ultimately have rec: "pathOK hv (shift + 5) (mergeIntoNode node (shift + 5) keyHash entry)"
        using 1(1)[OF g refl refl True, where d = "Suc d"] leaf hk he by blast
      have "trieEntries (mergeIntoNode node (shift + 5) keyHash entry) =
          insert entry (trieEntries node)" by (rule trieEntries_merge[OF leaf])
      with rec near True he g show ?thesis by (subst mergeIntoNode.simps) simp
    next
      case False
      with near he g 1(3) leaf show ?thesis
        by (subst mergeIntoNode.simps) (auto simp: Let_def intro: pathOK_leaf)
    qed
  qed
qed


lemma hashOfKey_cases:
  assumes "hs key = ok hk" "keyHash = None \<or> keyHash = Some hk"
  shows "hashOfKey hs keyHash key = ok hk"
  using assms by (auto simp: hashOfKey_def)

lemma trieGet_inv:
  assumes "eqOK eq V" "key \<in> V" "hs key = ok (hv key)"
  shows "trieKeys node \<subseteq> V \<Longrightarrow> pathOK hv shift node \<Longrightarrow>
    keyHash = None \<or> keyHash = Some (hv key) \<Longrightarrow>
    \<exists>r. trieGet eq hs node shift keyHash key = ok r \<and>
      (r = None \<longleftrightarrow> key \<notin> trieKeys node) \<and>
      (\<forall>v. r = Some v \<longrightarrow> (key, v) \<in> trieEntries node)"
proof (induction node arbitrary: shift keyHash)
  case (ValueNode kh entry)
  then have "fst entry \<in> V" by simp
  from isSame_eqOK[OF assms(1,2) this] show ?case by (auto simp: prod_eq_iff)
next
  case (HashCollisionNode kh entries)
  then have "fst ` set entries \<subseteq> V" by simp
  from findKey_ok[OF assms(1,2) this] obtain idx where idx: "findKey eq key entries = ok idx"
    "case idx of None \<Rightarrow> key \<notin> fst ` set entries
       | Some i \<Rightarrow> i < length entries \<and> fst (entries ! i) = key" by blast
  show ?case
  proof (cases idx)
    case None
    with idx show ?thesis by simp
  next
    case (Some i)
    with idx(2) have i: "i < length entries" "fst (entries ! i) = key" by simp_all
    then have "entries ! i \<in> set entries" by simp
    with i(2) have "(key, snd (entries ! i)) \<in> set entries" by (metis prod.collapse)
    moreover from this have "key \<in> fst ` set entries" by force
    ultimately show ?thesis using idx(1) Some by simp
  qed
next
  case (BitmapIndexedNode nodes)
  from hashOfKey_cases[where hs = hs and key = key and hk = "hv key" and keyHash = keyHash,
      OF assms(3) BitmapIndexedNode.prems(3)]
  have kh: "hashOfKey hs keyHash key = ok (hv key)" .
  let ?i = "fragment shift (hv key)"
  from BitmapIndexedNode.prems(2) have d: "distinct (map fst nodes)"
    and p: "\<forall>p \<in> set nodes. (\<forall>e \<in> trieEntries (snd p). fragment shift (hv (fst e)) = fst p) \<and>
        pathOK hv (shift + 5) (snd p)" by simp_all
  have loc: "c = node" if "key \<in> trieKeys c" "(i, c) \<in> set nodes" "map_of nodes ?i = Some node"
    for i c node
  proof -
    from that(1) obtain v where "(key, v) \<in> trieEntries c" by (auto simp: trieKeys_def)
    with p that(2) have "?i = i" by fastforce
    with that(2) d have "map_of nodes ?i = Some c" by simp
    with that(3) show ?thesis by simp
  qed
  show ?case
  proof (cases "map_of nodes ?i")
    case None
    have "key \<notin> trieKeys (BitmapIndexedNode nodes)"
    proof
      assume "key \<in> trieKeys (BitmapIndexedNode nodes)"
      then obtain i c where c: "(i, c) \<in> set nodes" "key \<in> trieKeys c" by auto
      then obtain v where "(key, v) \<in> trieEntries c" by (auto simp: trieKeys_def)
      with p c(1) have "?i = i" by fastforce
      with c(1) d have "map_of nodes ?i = Some c" by simp
      with None show False by simp
    qed
    with kh None show ?thesis by (simp add: ok_def)
  next
    case (Some node)
    then have m: "(?i, node) \<in> set nodes" by (rule map_of_SomeD)
    then have n: "node \<in> snd ` set nodes" by force
    with BitmapIndexedNode.prems(1) have sub: "trieKeys node \<subseteq> V" by auto
    from p m have pn: "pathOK hv (shift + 5) node" by fastforce
    from BitmapIndexedNode.IH[OF m _ sub pn, of "Some (hv key)"]
    obtain r where r: "trieGet eq hs node (shift + 5) (Some (hv key)) key = ok r"
      "r = None \<longleftrightarrow> key \<notin> trieKeys node"
      "\<forall>v. r = Some v \<longrightarrow> (key, v) \<in> trieEntries node" by auto
    have "key \<in> trieKeys (BitmapIndexedNode nodes) \<longleftrightarrow> key \<in> trieKeys node"
    proof
      assume "key \<in> trieKeys (BitmapIndexedNode nodes)"
      then obtain i c where c: "(i, c) \<in> set nodes" "key \<in> trieKeys c" by auto
      from loc[OF c(2,1) Some] c(2) show "key \<in> trieKeys node" by simp
    next
      assume "key \<in> trieKeys node"
      with n show "key \<in> trieKeys (BitmapIndexedNode nodes)" by auto
    qed
    moreover have "\<forall>v. r = Some v \<longrightarrow> (key, v) \<in> trieEntries (BitmapIndexedNode nodes)"
      using r(3) n by auto
    ultimately show ?thesis using kh Some r(1,2) by (simp add: ok_def)
  qed
qed


lemma replaceNode_simps [simp]:
  "replaceNode i node [] = []"
  "replaceNode i node ((j, n) # nodes) = (j, if j = i then node else n) # replaceNode i node nodes"
  by (simp_all add: replaceNode_def)

lemma map_fst_replaceNode [simp]: "map fst (replaceNode i node nodes) = map fst nodes"
  by (induction nodes) auto

lemma in_replaceNode:
  "p \<in> set (replaceNode i node nodes) \<longleftrightarrow>
     (p = (i, node) \<and> i \<in> fst ` set nodes) \<or> (p \<in> set nodes \<and> fst p \<noteq> i)"
proof (induction nodes)
  case Nil
  show ?case by simp
next
  case (Cons a nodes)
  obtain j n where a: "a = (j, n)" by (cases a)
  show ?case
  proof (cases "j = i")
    case True
    with a Cons show ?thesis by (cases p) auto
  next
    case False
    with a Cons show ?thesis by (cases p) auto
  qed
qed

lemma trieUpdate_inv:
  assumes "eqOK eq V" "key \<in> V" "hs key = ok (hv key)"
  shows "trieKeys node \<subseteq> V \<Longrightarrow> key \<notin> trieKeys node \<Longrightarrow> pathOK hv (5 * d) node \<Longrightarrow>
    agrees hv d (hv key) node \<Longrightarrow> keyHash = None \<or> keyHash = Some (hv key) \<Longrightarrow>
    \<exists>node'. trieUpdate eq hs node (5 * d) keyHash key v = ok node' \<and>
      trieEntries node' = insert (key, v) (trieEntries node) \<and> pathOK hv (5 * d) node'"
proof (induction node arbitrary: d keyHash)
  case (ValueNode kh entry)
  then have "fst entry \<in> V" "key \<noteq> fst entry" by simp_all
  with isSame_eqOK[OF assms(1,2)] have s: "isSame eq key (fst entry) = ok False" by simp
  have "pathOK hv (5 * d) (mergeIntoNode (ValueNode kh entry) (5 * d) (hv key) (key, v))"
  proof (rule mergeIntoNode_pathOK[where d = d])
    show "\<forall>j < d. fragment (5 * j) (keyHashOf (ValueNode kh entry)) = fragment (5 * j) (hv key)"
      using ValueNode.prems(3,4) by (simp add: agrees_def)
  qed (use ValueNode.prems(3) in simp_all)
  with s assms(3) show ?case by (simp add: trieEntries_merge)
next
  case (HashCollisionNode kh entries)
  from hashOfKey_cases[where hs = hs and key = key and hk = "hv key" and keyHash = keyHash,
      OF assms(3) HashCollisionNode.prems(5)]
  have h: "hashOfKey hs keyHash key = ok (hv key)" .
  show ?case
  proof (cases "hv key = kh")
    case True
    from HashCollisionNode.prems(1,2) have "fst ` set entries \<subseteq> V" "key \<notin> fst ` set entries"
      by simp_all
    from findKey_absent[OF assms(1,2) this] have "findKey eq key entries = ok None" .
    with h True HashCollisionNode.prems(3) show ?thesis by simp
  next
    case False
    have "pathOK hv (5 * d) (mergeIntoNode (HashCollisionNode kh entries) (5 * d) (hv key)
        (key, v))"
    proof (rule mergeIntoNode_pathOK[where d = d])
      show "\<forall>j < d. fragment (5 * j) (keyHashOf (HashCollisionNode kh entries)) =
          fragment (5 * j) (hv key)"
      proof (cases entries)
        case Nil
        with HashCollisionNode.prems(3) show ?thesis by simp
      next
        case (Cons e es)
        with HashCollisionNode.prems(3,4) show ?thesis by (auto simp: agrees_def)
      qed
    qed (use HashCollisionNode.prems(3) in simp_all)
    with h False show ?thesis by (simp add: trieEntries_merge)
  qed
next
  case (BitmapIndexedNode nodes)
  from hashOfKey_cases[where hs = hs and key = key and hk = "hv key" and keyHash = keyHash,
      OF assms(3) BitmapIndexedNode.prems(5)]
  have h: "hashOfKey hs keyHash key = ok (hv key)" .
  let ?i = "fragment (5 * d) (hv key)"
  from BitmapIndexedNode.prems(3) have dist: "distinct (map fst nodes)"
    and p: "\<forall>p \<in> set nodes.
        (\<forall>e \<in> trieEntries (snd p). fragment (5 * d) (hv (fst e)) = fst p) \<and>
        pathOK hv (5 * d + 5) (snd p)" by simp_all
  show ?case
  proof (cases "map_of nodes ?i")
    case None
    let ?new = "ValueNode (hv key) (key, v)"
    from None have fresh: "?i \<notin> fst ` set nodes" by (simp add: map_of_eq_None_iff)
    from dist have "distinct nodes" "inj_on fst (set nodes)" by (simp_all add: distinct_map)
    moreover from fresh have "(?i, ?new) \<notin> set nodes" by force
    ultimately have "distinct (insertNode ?i ?new nodes)"
      "inj_on fst (set (insertNode ?i ?new nodes))"
      using fresh by (simp_all add: insertNode_def distinct_insort set_insort_key)
    then have "distinct (map fst (insertNode ?i ?new nodes))" by (simp add: distinct_map)
    with p have "pathOK hv (5 * d) (BitmapIndexedNode (insertNode ?i ?new nodes))" by simp
    with h None show ?thesis by (simp add: ok_def)
  next
    case (Some c)
    then have m: "(?i, c) \<in> set nodes" by (rule map_of_SomeD)
    then have n: "c \<in> snd ` set nodes" by force
    from n BitmapIndexedNode.prems(1) have sub: "trieKeys c \<subseteq> V" by auto
    from n BitmapIndexedNode.prems(2) have absent: "key \<notin> trieKeys c" by auto
    have five: "5 * Suc d = 5 * d + 5" by simp
    from p m have pc: "pathOK hv (5 * Suc d) c"
      and fc: "\<forall>e \<in> trieEntries c. fragment (5 * d) (hv (fst e)) = ?i"
      unfolding five by fastforce+
    have ag: "agrees hv (Suc d) (hv key) c"
      unfolding agrees_def
    proof (intro ballI allI impI)
      fix e j assume e: "e \<in> trieEntries c" and j: "j < Suc d"
      show "fragment (5 * j) (hv (fst e)) = fragment (5 * j) (hv key)"
      proof (cases "j = d")
        case True
        with fc e show ?thesis by simp
      next
        case False
        with j have "j < d" by simp
        moreover from e n have "e \<in> trieEntries (BitmapIndexedNode nodes)" by auto
        ultimately show ?thesis using BitmapIndexedNode.prems(4) unfolding agrees_def by blast
      qed
    qed
    from BitmapIndexedNode.IH[OF m _ sub absent pc ag, where keyHash = "Some (hv key)"]
    obtain c' where c': "trieUpdate eq hs c (5 * d + 5) (Some (hv key)) key v = ok c'"
      "trieEntries c' = insert (key, v) (trieEntries c)" "pathOK hv (5 * d + 5) c'"
      unfolding five by auto
    have only: "n' = c" if "(?i, n') \<in> set nodes" for n'
      using that m dist by (meson eq_key_imp_eq_value)
    have ent: "trieEntries (BitmapIndexedNode (replaceNode ?i c' nodes)) =
        insert (key, v) (trieEntries (BitmapIndexedNode nodes))"
    proof (intro set_eqI iffI)
      fix e assume "e \<in> trieEntries (BitmapIndexedNode (replaceNode ?i c' nodes))"
      then obtain q where q: "q \<in> set (replaceNode ?i c' nodes)" "e \<in> trieEntries (snd q)"
        by auto
      from q(1) consider "q = (?i, c')" | "q \<in> set nodes" by (auto simp: in_replaceNode)
      then show "e \<in> insert (key, v) (trieEntries (BitmapIndexedNode nodes))"
      proof cases
        case 1
        with q(2) c'(2) n show ?thesis by auto
      next
        case 2
        with q(2) show ?thesis by auto
      qed
    next
      fix e assume e: "e \<in> insert (key, v) (trieEntries (BitmapIndexedNode nodes))"
      have in': "(?i, c') \<in> set (replaceNode ?i c' nodes)"
        using m by (force simp: in_replaceNode)
      show "e \<in> trieEntries (BitmapIndexedNode (replaceNode ?i c' nodes))"
      proof (cases "e \<in> trieEntries c'")
        case True
        with in' show ?thesis by force
      next
        case False
        with e c'(2) obtain q where q: "q \<in> set nodes" "e \<in> trieEntries (snd q)"
          by auto
        have "fst q \<noteq> ?i"
        proof
          assume "fst q = ?i"
          with q(1) only[of "snd q"] have "snd q = c" by (metis prod.collapse)
          with q(2) c'(2) False show False by simp
        qed
        with q(1) have "q \<in> set (replaceNode ?i c' nodes)" by (simp add: in_replaceNode)
        with q(2) show ?thesis by force
      qed
    qed
    have "\<forall>q \<in> set (replaceNode ?i c' nodes).
        (\<forall>e \<in> trieEntries (snd q). fragment (5 * d) (hv (fst e)) = fst q) \<and>
        pathOK hv (5 * d + 5) (snd q)"
    proof
      fix q assume "q \<in> set (replaceNode ?i c' nodes)"
      then consider "q = (?i, c')" | "q \<in> set nodes" by (auto simp: in_replaceNode)
      then show "(\<forall>e \<in> trieEntries (snd q). fragment (5 * d) (hv (fst e)) = fst q) \<and>
        pathOK hv (5 * d + 5) (snd q)"
      proof cases
        case 1
        with c'(2,3) fc show ?thesis by auto
      next
        case 2
        with p show ?thesis by blast
      qed
    qed
    with dist have "pathOK hv (5 * d) (BitmapIndexedNode (replaceNode ?i c' nodes))" by simp
    with h Some c'(1) ent show ?thesis by (simp add: ok_def del: trieEntries.simps)
  qed
qed


subsection \<open>Maps: get finds the keys that were set\<close>

lemma agrees_0 [simp]: "agrees hv 0 h node"
  by (simp add: agrees_def)

lemma forEachAcc_trieUpdate_inv:
  assumes "eqOK eq V" "\<forall>x \<in> V. hs x = ok (hv x)"
  shows "fst ` set entries \<subseteq> V \<Longrightarrow> distinct (map fst entries) \<Longrightarrow>
    trieKeys node \<subseteq> V \<Longrightarrow> fst ` set entries \<inter> trieKeys node = {} \<Longrightarrow> pathOK hv 0 node \<Longrightarrow>
    \<exists>node'. forEachAcc (\<lambda>entry node. trieUpdate eq hs node 0 None (fst entry) (snd entry))
        entries node = ok node' \<and>
      trieEntries node' = trieEntries node \<union> set entries \<and> pathOK hv 0 node'"
proof (induction entries arbitrary: node)
  case Nil
  then show ?case by simp
next
  case (Cons e es)
  then have e: "fst e \<in> V" "fst e \<notin> trieKeys node" and es: "fst ` set es \<subseteq> V"
    "distinct (map fst es)" "fst e \<notin> fst ` set es" by auto
  from assms(2) e(1) have he: "hs (fst e) = ok (hv (fst e))" by simp
  from trieUpdate_inv[where hs = hs and key = "fst e" and d = 0 and keyHash = None
      and v = "snd e" and hv = hv, OF assms(1) e(1) he Cons.prems(3) e(2)] Cons.prems(5)
  obtain node1 where 1: "trieUpdate eq hs node 0 None (fst e) (snd e) = ok node1"
    "trieEntries node1 = insert e (trieEntries node)" "pathOK hv 0 node1" by auto
  from 1(2) e(1) Cons.prems(3) have k1: "trieKeys node1 \<subseteq> V" by (auto simp: trieKeys_def)
  from 1(2) es(3) Cons.prems(4) have d1: "fst ` set es \<inter> trieKeys node1 = {}"
    by (auto simp: trieKeys_def)
  from Cons.IH[OF es(1,2) k1 d1 1(3)] obtain node' where
    "forEachAcc (\<lambda>entry node. trieUpdate eq hs node 0 None (fst entry) (snd entry))
        es node1 = ok node'" "trieEntries node' = trieEntries node1 \<union> set es"
    "pathOK hv 0 node'" by blast
  with 1 show ?case by auto
qed

lemma mapGet_inv:
  assumes "eqOK eq V" "key \<in> V" "mapOK hv V root"
    and big: "8 < card V \<longrightarrow> (\<forall>x \<in> V. hs x = ok (hv x))"
  shows "\<exists>r. mapGet eq hs root key = ok r \<and> (r = None \<longleftrightarrow> key \<notin> mapKeys root) \<and>
    (\<forall>v. r = Some v \<longrightarrow> (key, v) \<in> mapEntries root)"
proof (cases root)
  case None
  then show ?thesis by (simp add: mapGet_def mapKeys_def mapEntries_def)
next
  case (Some r)
  show ?thesis
  proof (cases r)
    case (ArrayMapNode entries)
    with Some assms(3) have "fst ` set entries \<subseteq> V"
      by (simp add: mapOK_def mapKeys_def mapEntries_def)
    from findKey_ok[OF assms(1,2) this] obtain idx where idx: "findKey eq key entries = ok idx"
      "case idx of None \<Rightarrow> key \<notin> fst ` set entries
         | Some i \<Rightarrow> i < length entries \<and> fst (entries ! i) = key" by blast
    show ?thesis
    proof (cases idx)
      case None
      with idx Some ArrayMapNode show ?thesis
        by (simp add: mapGet_def mapKeys_def mapEntries_def)
    next
      case (Some i)
      with idx(2) have i: "i < length entries" "fst (entries ! i) = key" by simp_all
      then have "entries ! i \<in> set entries" by simp
      with i(2) have "(key, snd (entries ! i)) \<in> set entries" by (metis prod.collapse)
      moreover from this have "key \<in> fst ` set entries" by force
      ultimately show ?thesis using idx(1) Some \<open>root = Some r\<close> ArrayMapNode
        by (simp add: mapGet_def mapKeys_def mapEntries_def)
    qed
  next
    case (TrieNode node)
    with Some assms(3) have n: "trieKeys node \<subseteq> V" "pathOK hv 0 node" "8 < card V"
      by (simp_all add: mapOK_def mapKeys_def mapEntries_def trieKeys_def)
    with big assms(2) have "hs key = ok (hv key)" by simp
    from trieGet_inv[where hs = hs and key = key and hv = hv and keyHash = None and shift = 0,
        OF assms(1,2) this n(1,2)] Some TrieNode
    show ?thesis by (simp add: mapGet_def mapKeys_def mapEntries_def trieKeys_def)
  qed
qed

lemma card_more_than_entries:
  assumes "finite V" "key \<in> V" "fst ` set entries \<subseteq> V" "key \<notin> fst ` set entries"
    "distinct (map fst entries)" "8 \<le> length entries"
  shows "8 < card V"
proof -
  have "card (fst ` set entries) = length entries"
    using assms(5) by (metis distinct_card length_map set_map)
  with assms(4) have "card (insert key (fst ` set entries)) = Suc (length entries)" by simp
  moreover have "card (insert key (fst ` set entries)) \<le> card V"
    by (rule card_mono) (use assms in auto)
  ultimately show ?thesis using assms(6) by simp
qed

lemma mapSet_inv:
  assumes "eqOK eq V" "key \<in> V" "mapOK hv V root" "key \<notin> mapKeys root" "finite V"
    and big: "8 < card V \<longrightarrow> (\<forall>x \<in> V. hs x = ok (hv x))"
  shows "\<exists>root'. mapSet eq hs root key v = ok root' \<and>
    mapEntries root' = insert (key, v) (mapEntries root) \<and> mapOK hv V root'"
proof (cases root)
  case None
  with assms(2) show ?thesis by (simp add: mapSet_def mapOK_def mapKeys_def mapEntries_def)
next
  case (Some r)
  show ?thesis
  proof (cases r)
    case (ArrayMapNode entries)
    with Some assms(3,4) have k: "fst ` set entries \<subseteq> V" "key \<notin> fst ` set entries"
      "distinct (map fst entries)"
      by (simp_all add: mapOK_def mapKeys_def mapEntries_def)
    from findKey_absent[OF assms(1,2) k(1,2)] have f: "findKey eq key entries = ok None" .
    show ?thesis
    proof (cases "8 \<le> length entries")
      case False
      with Some ArrayMapNode f k assms(2) show ?thesis
        by (simp add: mapSet_def mapOK_def mapKeys_def mapEntries_def)
    next
      case True
      from card_more_than_entries[OF assms(5,2) k True] have c: "8 < card V" .
      with big have hs: "\<forall>x \<in> V. hs x = ok (hv x)" by simp
      have "\<exists>node'. forEachAcc (\<lambda>entry node. trieUpdate eq hs node 0 None (fst entry) (snd entry))
          entries (ValueNode (hv key) (key, v)) = ok node' \<and>
        trieEntries node' = trieEntries (ValueNode (hv key) (key, v)) \<union> set entries \<and>
        pathOK hv 0 node'"
        by (rule forEachAcc_trieUpdate_inv[OF assms(1) hs k(1,3)]) (use assms(2) k(2) in auto)
      then obtain node' where n: "createNodes eq hs entries key v = ok node'"
        "trieEntries node' = insert (key, v) (set entries)" "pathOK hv 0 node'"
        using hs assms(2) by (auto simp: createNodes_def)
      from n(2) k(1) assms(2) have "trieKeys node' \<subseteq> V" by (auto simp: trieKeys_def)
      with Some ArrayMapNode f True n c show ?thesis
        by (simp add: mapSet_def mapOK_def mapKeys_def mapEntries_def trieKeys_def)
    qed
  next
    case (TrieNode node)
    with Some assms(3,4) have n: "trieKeys node \<subseteq> V" "pathOK hv 0 node" "8 < card V"
      "key \<notin> trieKeys node"
      by (simp_all add: mapOK_def mapKeys_def mapEntries_def trieKeys_def)
    with big assms(2) have "hs key = ok (hv key)" by simp
    from trieUpdate_inv[where hs = hs and key = key and hv = hv and keyHash = None and d = 0
        and v = v, OF assms(1,2) this n(1,4)] n(2)
    obtain node' where u: "trieUpdate eq hs node 0 None key v = ok node'"
      "trieEntries node' = insert (key, v) (trieEntries node)" "pathOK hv 0 node'" by auto
    from u(2) n(1) assms(2) have "trieKeys node' \<subseteq> V" by (auto simp: trieKeys_def)
    with Some TrieNode u n(3) show ?thesis
      by (simp add: mapSet_def mapOK_def mapKeys_def mapEntries_def trieKeys_def)
  qed
qed


subsection \<open>Sets of nodes no two of which are equal\<close>

lemma typeSet_has_inv:
  assumes "eqOK (equals H n h) V" "t \<in> V" "mapOK hv V s"
    and "8 < card V \<longrightarrow> (\<forall>x \<in> V. hashOfNode H n h x = ok (hv x))"
  shows "typeSet_has H n h s t = ok (t \<in> mapKeys s)"
  using mapGet_inv[OF assms] by (auto simp: typeSet_has_def)

lemma typeSet_add_inv:
  assumes "eqOK (equals H n h) V" "t \<in> V" "mapOK hv V s" "t \<notin> mapKeys s" "finite V"
    and "8 < card V \<longrightarrow> (\<forall>x \<in> V. hashOfNode H n h x = ok (hv x))"
  shows "\<exists>s'. typeSet_add H n h s t = ok s' \<and> mapKeys s' = insert t (mapKeys s) \<and> mapOK hv V s'"
  using mapSet_inv[OF assms, of t] by (auto simp: typeSet_add_def mapKeys_def)

lemma orderedOK_keys: "orderedOK hv V s \<Longrightarrow> mapKeys (oMap s) = set (oList s)"
  by (force simp: orderedOK_def mapKeys_def set_conv_nth)

lemma orderedOK_empty [simp]: "orderedOK hv V emptyOrderedSet"
  by (simp add: orderedOK_def emptyOrderedSet_def mapOK_def mapKeys_def mapEntries_def)

lemma positions_snoc:
  "{((xs @ [t]) ! i, i) | i. i < length (xs @ [t])} =
   insert (t, length xs) {(xs ! i, i) | i. i < length xs}"
proof (intro set_eqI iffI)
  fix p assume "p \<in> {((xs @ [t]) ! i, i) | i. i < length (xs @ [t])}"
  then obtain i where i: "i < Suc (length xs)" "p = ((xs @ [t]) ! i, i)" by auto
  show "p \<in> insert (t, length xs) {(xs ! i, i) | i. i < length xs}"
  proof (cases "i = length xs")
    case True
    with i show ?thesis by simp
  next
    case False
    with i have "i < length xs" by simp
    with i(2) show ?thesis by (simp add: nth_append)
  qed
next
  fix p assume "p \<in> insert (t, length xs) {(xs ! i, i) | i. i < length xs}"
  then consider "p = (t, length xs)" | i where "i < length xs" "p = (xs ! i, i)" by auto
  then show "p \<in> {((xs @ [t]) ! i, i) | i. i < length (xs @ [t])}"
  proof cases
    case 1
    have "p = ((xs @ [t]) ! length xs, length xs)" using 1 by simp
    then show ?thesis by (metis (mono_tags, lifting) length_append_singleton lessI mem_Collect_eq)
  next
    case 2
    then have "p = ((xs @ [t]) ! i, i)" "i < length (xs @ [t])" by (simp_all add: nth_append)
    then show ?thesis by blast
  qed
qed

lemma nodeSet_add_inv:
  assumes eq: "eqOK (equals H n h) V" and t: "t \<in> V" and s: "orderedOK hv V s"
    and fin: "finite V"
    and big: "8 < card V \<longrightarrow> (\<forall>x \<in> V. hashOfNode H n h x = ok (hv x))"
  shows "\<exists>s'. nodeSet_add H n h s t = ok s' \<and> orderedOK hv V s' \<and>
    oList s' = (if t \<in> set (oList s) then oList s else oList s @ [t])"
proof -
  from s have m: "mapOK hv V (oMap s)" and d: "distinct (oList s)"
    and e: "mapEntries (oMap s) = {(oList s ! i, i) | i. i < length (oList s)}"
    by (simp_all add: orderedOK_def)
  note k = orderedOK_keys[OF s]
  from mapGet_inv[OF eq t m big] obtain r where
    r: "mapGet (equals H n h) (hashOfNode H n h) (oMap s) t = ok r"
      "r = None \<longleftrightarrow> t \<notin> mapKeys (oMap s)"
      "\<forall>v. r = Some v \<longrightarrow> (t, v) \<in> mapEntries (oMap s)" by blast
  show ?thesis
  proof (cases r)
    case None
    with r(2) k have absent: "t \<notin> mapKeys (oMap s)" "t \<notin> set (oList s)" by simp_all
    from mapSet_inv[OF eq t m absent(1) fin big, of "length (oList s)"] obtain m' where
      m': "mapSet (equals H n h) (hashOfNode H n h) (oMap s) t (length (oList s)) = ok m'"
        "mapEntries m' = insert (t, length (oList s)) (mapEntries (oMap s))"
        "mapOK hv V m'" by blast
    let ?s' = "\<lparr>oMap = m', oList = oList s @ [t]\<rparr>"
    have "mapEntries m' = {((oList s @ [t]) ! i, i) | i. i < length (oList s @ [t])}"
      unfolding m'(2) e positions_snoc ..
    with m'(3) d absent(2) have "orderedOK hv V ?s'" by (simp add: orderedOK_def)
    with r(1) None m'(1) absent(2) show ?thesis by (simp add: nodeSet_add_def)
  next
    case (Some i)
    with r(3) e have i: "i < length (oList s)" "oList s ! i = t" by auto
    then have "t \<in> set (oList s)" by auto
    with r(1) Some i s show ?thesis by (simp add: nodeSet_add_def)
  qed
qed

lemma forEachAcc_nodeSet_add_inv:
  assumes eq: "eqOK (equals H n h) V" and fin: "finite V"
    and big: "8 < card V \<longrightarrow> (\<forall>x \<in> V. hashOfNode H n h x = ok (hv x))"
  shows "set xs \<subseteq> V \<Longrightarrow> orderedOK hv V s \<Longrightarrow>
    \<exists>s'. forEachAcc (\<lambda>t s. nodeSet_add H n h s t) xs s = ok s' \<and> orderedOK hv V s' \<and>
      set (oList s') = set (oList s) \<union> set xs \<and>
      (distinct (oList s @ xs) \<longrightarrow> oList s' = oList s @ xs)"
proof (induction xs arbitrary: s)
  case Nil
  then show ?case by simp
next
  case (Cons x xs)
  then have x: "x \<in> V" and xs: "set xs \<subseteq> V" by auto
  from nodeSet_add_inv[OF eq x Cons.prems(2) fin big] obtain s1 where
    1: "nodeSet_add H n h s x = ok s1" "orderedOK hv V s1"
      "oList s1 = (if x \<in> set (oList s) then oList s else oList s @ [x])" by blast
  from Cons.IH[OF xs 1(2)] obtain s' where
    2: "forEachAcc (\<lambda>t s. nodeSet_add H n h s t) xs s1 = ok s'" "orderedOK hv V s'"
      "set (oList s') = set (oList s1) \<union> set xs"
      "distinct (oList s1 @ xs) \<longrightarrow> oList s' = oList s1 @ xs" by blast
  have "set (oList s') = set (oList s) \<union> set (x # xs)" using 1(3) 2(3) by auto
  moreover have "distinct (oList s @ x # xs) \<longrightarrow> oList s' = oList s @ x # xs"
    using 1(3) 2(4) by auto
  ultimately show ?case using 1(1) 2(1,2) by simp
qed

lemma nodeSet_of_inv:
  assumes "eqOK (equals H n h) V" "finite V"
    "8 < card V \<longrightarrow> (\<forall>x \<in> V. hashOfNode H n h x = ok (hv x))" "set xs \<subseteq> V"
  shows "\<exists>s. nodeSet_of H n h xs = ok s \<and> orderedOK hv V s \<and> set (oList s) = set xs \<and>
    (distinct xs \<longrightarrow> oList s = xs)"
  using forEachAcc_nodeSet_add_inv[OF assms(1,2,3,4), of emptyOrderedSet]
  by (simp add: nodeSet_of_def emptyOrderedSet_def[symmetric]) (simp add: emptyOrderedSet_def)


section \<open>Nodes of the same shape are equal\<close>

subsection \<open>More fuel does not change a hash\<close>

lemma andThen_mono2:
  assumes "andThen m f = Some r"
    and "\<And>r. m = Some r \<Longrightarrow> m' = Some r"
    and "\<And>x r. f x = Some r \<Longrightarrow> f' x = Some r"
  shows "andThen m' f' = Some r"
  using assms(1) by (rule andThen_mono) (use assms(2,3) in auto)

lemma hash_mono_step:
  "(flatHashCode H n h t = Some r \<longrightarrow> flatHashCode H (Suc n) h t = Some r) \<and>
   (hashCode H n h t = Some r \<longrightarrow> hashCode H (Suc n) h t = Some r)"
proof (induction n arbitrary: t r)
  case 0
  show ?case by simp
next
  case (Suc n)
  have IHf: "flatHashCode H n h t = Some r \<Longrightarrow> flatHashCode H (Suc n) h t = Some r" for t r
    using Suc.IH by blast
  have IHh: "hashCode H n h t = Some r \<Longrightarrow> hashCode H (Suc n) h t = Some r" for t r
    using Suc.IH by blast
  have f: "flatHashCode H (Suc (Suc n)) h t = Some r" if a: "flatHashCode H (Suc n) h t = Some r"
  proof (cases "nodeAt h t")
    case None
    with a show ?thesis by simp
  next
    case (Some node)
    show ?thesis
    proof (cases node)
      case (ArrayType i)
      with Some a have "andThen (hashCode H n h i) (\<lambda>x. ok (stringHash H ''array'' + x)) = Some r"
        by simp
      then have "andThen (hashCode H (Suc n) h i) (\<lambda>x. ok (stringHash H ''array'' + x)) = Some r"
        by (rule andThen_mono2) (use IHh in \<open>auto simp del: flatHashCode.simps hashCode.simps\<close>)
      with Some ArrayType show ?thesis by simp
    next
      case (MapType i)
      with Some a have "andThen (hashCode H n h i) (\<lambda>x. ok (stringHash H ''map'' + x)) = Some r"
        by simp
      then have "andThen (hashCode H (Suc n) h i) (\<lambda>x. ok (stringHash H ''map'' + x)) = Some r"
        by (rule andThen_mono2) (use IHh in \<open>auto simp del: flatHashCode.simps hashCode.simps\<close>)
      with Some MapType show ?thesis by simp
    qed (use Some a in simp_all)
  qed
  have g: "hashCode H (Suc (Suc n)) h t = Some r" if a: "hashCode H (Suc n) h t = Some r"
  proof (cases "nodeAt h t")
    case None
    with a show ?thesis by simp
  next
    case (Some node)
    show ?thesis
    proof (cases node)
      case (ClassType c)
      let ?body = "\<lambda>k hash. andThen (lift (properties c)) (\<lambda>props.
            forEachAcc (\<lambda>(name, t) hash.
                andThen (flatHashCode H k h t) (\<lambda>f. ok (hash + f + stringHash H name)))
              props hash)"
      from Some ClassType a have "andThen (flatHashCode H n h t) (?body n) = Some r" by simp
      then have "andThen (flatHashCode H (Suc n) h t) (?body (Suc n)) = Some r"
      proof (rule andThen_mono2)
        fix r' assume "flatHashCode H n h t = Some r'"
        then show "flatHashCode H (Suc n) h t = Some r'" by (rule IHf)
      next
        fix x r' assume "?body n x = Some r'"
        then show "?body (Suc n) x = Some r'"
        proof (rule andThen_mono2)
          fix props r'' assume "forEachAcc (\<lambda>(name, t) hash.
                andThen (flatHashCode H n h t) (\<lambda>f. ok (hash + f + stringHash H name)))
              props x = Some r''"
          then show "forEachAcc (\<lambda>(name, t) hash.
                andThen (flatHashCode H (Suc n) h t) (\<lambda>f. ok (hash + f + stringHash H name)))
              props x = Some r''"
          proof (rule forEachAcc_mono)
            fix p acc r3
            assume "(case p of (name, t) \<Rightarrow> \<lambda>hash. andThen (flatHashCode H n h t)
                (\<lambda>f. ok (hash + f + stringHash H name))) acc = Some r3"
            then show "(case p of (name, t) \<Rightarrow> \<lambda>hash. andThen (flatHashCode H (Suc n) h t)
                (\<lambda>f. ok (hash + f + stringHash H name))) acc = Some r3"
              by (cases p)
                (auto elim!: andThen_mono2 intro: IHf simp del: flatHashCode.simps hashCode.simps)
          qed
        qed simp
      qed
      with Some ClassType show ?thesis by simp
    next
      case (UnionType u)
      let ?body = "\<lambda>k hash.
            forEachAcc (\<lambda>t hash. andThen (flatHashCode H k h t) (\<lambda>f. ok (hash + f)))
              (members u) hash"
      from Some UnionType a have "andThen (flatHashCode H n h t) (?body n) = Some r" by simp
      then have "andThen (flatHashCode H (Suc n) h t) (?body (Suc n)) = Some r"
      proof (rule andThen_mono2)
        fix r' assume "flatHashCode H n h t = Some r'"
        then show "flatHashCode H (Suc n) h t = Some r'" by (rule IHf)
      next
        fix x r' assume "?body n x = Some r'"
        then show "?body (Suc n) x = Some r'"
          by (rule forEachAcc_mono)
            (auto elim!: andThen_mono2 intro: IHf simp del: flatHashCode.simps hashCode.simps)
      qed
      with Some UnionType show ?thesis by simp
    qed (use Some a in \<open>auto intro: IHf simp del: flatHashCode.simps\<close>)
  qed
  from f g show ?case by blast
qed

lemma flatHashCode_mono: "flatHashCode H n h t = Some r \<Longrightarrow> flatHashCode H (n + k) h t = Some r"
proof (induction k)
  case 0
  then show ?case by simp
next
  case (Suc k)
  then show ?case
    using hash_mono_step[of H "n + k" h t r] by (simp del: flatHashCode.simps hashCode.simps)
qed

lemma hashCode_mono: "hashCode H n h t = Some r \<Longrightarrow> hashCode H (n + k) h t = Some r"
proof (induction k)
  case 0
  then show ?case by simp
next
  case (Suc k)
  then show ?case
    using hash_mono_step[of H "n + k" h t r] by (simp del: flatHashCode.simps hashCode.simps)
qed

lemma hashCode_mono_le:
  "hashCode H n h t = ok v \<Longrightarrow> n \<le> m \<Longrightarrow> hashCode H m h t = ok v"
  using hashCode_mono[of H n h t "Inr v" "m - n"] by (simp add: ok_def)

subsection \<open>The work list ends with true on a closed set of pairs\<close>

lemma list_ex_pair' [simp]: "list_ex (\<lambda>(o1, o2). o1 = a \<and> o2 = b) pairs \<longleftrightarrow> (a, b) \<in> set pairs"
  by (induction pairs) auto

lemma bucketsHashed_empty [simp]: "bucketsHashed H N h Map.empty"
  by (simp add: bucketsHashed_def)





subsection \<open>Related nodes of the same shape pass the local check\<close>







subsection \<open>equals on related nodes\<close>






text \<open>
  What else the amended claim leaves out. The cases of an enum are compared as ordered
  sets (l. 321): two enums with the same cases in another order are not equal. The members
  of two unions are paired by their kinds (l. 375-390): of two unions of the same shape with
  two members of one kind, the arrays are not equal, although the unions themselves, which
  UnionType.equals compares member by member, are.
\<close>

lemma equals_false_on_reordered_cases:
  "equals H (Suc n) reorderedCasesHeap 0 1 = ok False"
  by (simp add: equals.simps reorderedCasesHeap_def typesEqual_def expandForEquality_def
      nodeAt_def)

lemma equals_false_on_members_of_one_kind:
  "sameShape twoEnumsUnionHeap {(6, 7), (4, 5), (0, 2), (1, 3)} \<and>
   equals H (Suc (Suc (Suc (Suc (Suc (Suc n)))))) twoEnumsUnionHeap 6 7 = ok False \<and>
   equals H (Suc (Suc n)) twoEnumsUnionHeap 4 5 = ok True"
proof (intro conjI)
  show "sameShape twoEnumsUnionHeap {(6, 7), (4, 5), (0, 2), (1, 3)}"
    by (simp add: sameShape_def sameShapeStep_def twoEnumsUnionHeap_def)
  show "equals H (Suc (Suc (Suc (Suc (Suc (Suc n)))))) twoEnumsUnionHeap 6 7 = ok False"
    by (simp add: equals.simps twoEnumsUnionHeap_def typesEqual_def expandForEquality_def
        nodeAt_def alreadySeen_def withKinds_def otherByKind_def)
  show "equals H (Suc (Suc n)) twoEnumsUnionHeap 4 5 = ok True"
    by (simp add: equals.simps twoEnumsUnionHeap_def typesEqual_def expandForEquality_def
        nodeAt_def orderedSetEquals_def isSame_def)
qed




section \<open>makeNullable and removeNull\<close>

subsection \<open>New nodes do not change the hash of a node\<close>

lemma nodeAt_append_old: "t < length h \<Longrightarrow> nodeAt (h @ h') t = nodeAt h t"
  by (simp add: nodeAt_def nth_append)

lemma nodeAt_append_Some: "nodeAt h t = Some node \<Longrightarrow> nodeAt (h @ h') t = Some node"
  by (auto simp: nodeAt_def nth_append split: if_splits)

lemma nodeAt_append_new [simp]: "nodeAt (h @ [node]) (length h) = Some node"
  by (simp add: nodeAt_def)

lemma nodeAt_append_new2 [simp]: "nodeAt (h @ [node, node']) (Suc (length h)) = Some node'"
  by (simp add: nodeAt_def nth_append)

lemma forEachAcc_ok_mono:
  assumes "forEachAcc f xs acc = ok r"
    and "\<And>x acc r. x \<in> set xs \<Longrightarrow> f x acc = ok r \<Longrightarrow> g x acc = ok r"
  shows "forEachAcc g xs acc = ok r"
  using assms
proof (induction xs arbitrary: acc)
  case Nil
  then show ?case by simp
next
  case (Cons x xs)
  from Cons.prems(1) obtain acc' where a: "f x acc = ok acc'" "forEachAcc f xs acc' = ok r"
    by (auto simp: andThen_eq_ok)
  from a(1) Cons.prems(2) have "g x acc = ok acc'" by simp
  moreover from Cons.IH[OF a(2)] Cons.prems(2) have "forEachAcc g xs acc' = ok r" by simp
  ultimately show ?case by simp
qed

lemma hash_append:
  "(flatHashCode H n h t = ok v \<longrightarrow> flatHashCode H n (h @ h') t = ok v) \<and>
   (hashCode H n h t = ok v \<longrightarrow> hashCode H n (h @ h') t = ok v)"
proof (induction n arbitrary: t v)
  case 0
  show ?case by simp
next
  case (Suc n)
  have IHf: "flatHashCode H n h t = ok v \<Longrightarrow> flatHashCode H n (h @ h') t = ok v" for t v
    using Suc.IH by blast
  have IHh: "hashCode H n h t = ok v \<Longrightarrow> hashCode H n (h @ h') t = ok v" for t v
    using Suc.IH by blast
  have f: "flatHashCode H (Suc n) (h @ h') t = ok v" if a: "flatHashCode H (Suc n) h t = ok v"
  proof (cases "nodeAt h t")
    case None
    with a show ?thesis by simp
  next
    case (Some node)
    note s' = nodeAt_append_Some[OF Some, of h']
    show ?thesis
    proof (cases node)
      case (ArrayType i)
      with Some a obtain x where "hashCode H n h i = ok x" "v = stringHash H ''array'' + x"
        by (auto simp: andThen_eq_ok)
      with IHh[of i x] s' ArrayType show ?thesis by simp
    next
      case (MapType i)
      with Some a obtain x where "hashCode H n h i = ok x" "v = stringHash H ''map'' + x"
        by (auto simp: andThen_eq_ok)
      with IHh[of i x] s' MapType show ?thesis by simp
    qed (use Some s' a in simp_all)
  qed
  have g: "hashCode H (Suc n) (h @ h') t = ok v" if a: "hashCode H (Suc n) h t = ok v"
  proof (cases "nodeAt h t")
    case None
    with a show ?thesis by simp
  next
    case (Some node)
    note s' = nodeAt_append_Some[OF Some, of h']
    show ?thesis
    proof (cases node)
      case (ClassType c)
      with Some a obtain x props where x: "flatHashCode H n h t = ok x"
        "properties c = Inr props"
        "forEachAcc (\<lambda>(name, t) hash.
                andThen (flatHashCode H n h t) (\<lambda>f. ok (hash + f + stringHash H name)))
              props x = ok v"
        by (auto simp: andThen_eq_ok)
      from x(3) have "forEachAcc (\<lambda>(name, t) hash.
                andThen (flatHashCode H n (h @ h') t) (\<lambda>f. ok (hash + f + stringHash H name)))
              props x = ok v"
        by (rule forEachAcc_ok_mono) (auto simp: andThen_eq_ok IHf)
      with IHf[OF x(1)] x(2) s' ClassType show ?thesis by simp
    next
      case (UnionType u)
      with Some a obtain x where x: "flatHashCode H n h t = ok x"
        "forEachAcc (\<lambda>t hash. andThen (flatHashCode H n h t) (\<lambda>f. ok (hash + f)))
              (members u) x = ok v"
        by (auto simp: andThen_eq_ok)
      from x(2) have "forEachAcc (\<lambda>t hash. andThen (flatHashCode H n (h @ h') t)
              (\<lambda>f. ok (hash + f))) (members u) x = ok v"
        by (rule forEachAcc_ok_mono) (auto simp: andThen_eq_ok IHf)
      with IHf[OF x(1)] s' UnionType show ?thesis by simp
    qed (use Some s' a IHf[of t v] in \<open>simp_all del: flatHashCode.simps\<close>)
  qed
  from f g show ?case by blast
qed

lemma hashOfNode_append:
  assumes "hashCode H K h t = ok v" "K \<le> n"
  shows "hashOfNode H n (h @ h') t = ok (immutableHash H v)"
proof -
  from hashCode_mono_le[OF assms] have "hashCode H n h t = ok v" .
  with hash_append[of H n h t v h'] show ?thesis by (simp add: hashOfNode_def)
qed


subsection \<open>Nodes of different kinds are not equal\<close>

lemma expand_other_kind:
  assumes "nodeAt h a = Some na" "nodeAt h b = Some nb" "kind na \<noteq> kind nb"
  shows "expandForEquality h a b = Inr (Result False)"
  using assms by (cases na; cases nb) (simp_all add: expandForEquality_def)

lemma equals_other_kind:
  assumes "nodeAt h a = Some na" "nodeAt h b = Some nb" "kind na \<noteq> kind nb"
  shows "equals H (Suc n) h a b = ok False"
proof -
  from assms have ne: "a \<noteq> b" by auto
  show ?thesis
  proof (cases "\<exists>u. na = UnionType u")
    case True
    with assms show ?thesis by (cases nb) (auto simp: equals.simps)
  next
    case False
    with assms(1) have "equals H (Suc n) h a b = typesEqual H n h a b"
      by (cases na) (auto simp: equals.simps)
    with ne expand_other_kind[OF assms] show ?thesis by (simp add: typesEqual_def)
  qed
qed

lemma eqOK_distinct_kinds:
  assumes "\<forall>a \<in> V. a < length h" "inj_on (\<lambda>a. kind (h ! a)) V"
  shows "eqOK (equals H (Suc n) h) V"
  unfolding eqOK_def
proof (intro ballI impI)
  fix a b assume ab: "a \<in> V" "b \<in> V" "a \<noteq> b"
  with assms(1) have n: "nodeAt h a = Some (h ! a)" "nodeAt h b = Some (h ! b)"
    by (simp_all add: nodeAt_def)
  from ab assms(2) have "kind (h ! a) \<noteq> kind (h ! b)" by (auto dest: inj_onD)
  with n show "equals H (Suc n) h a b = ok False" by (rule equals_other_kind)
qed

subsection \<open>The hash of a class with an array of itself\<close>

lemma cycle_hash_diverges:
  assumes "nodeAt h a = Some (ClassType c)" "p_properties c = Some [(name, b)]"
    "nodeAt h b = Some (ArrayType a)"
  shows "hashCode H n h b = None \<and> flatHashCode H n h b = None \<and> hashCode H n h a = None"
proof (induction n)
  case 0
  show ?case by simp
next
  case (Suc n)
  then have a: "hashCode H n h b = None" "flatHashCode H n h b = None"
    "hashCode H n h a = None" by simp_all
  have "hashCode H (Suc n) h b = None" using a assms by simp
  moreover have "flatHashCode H (Suc n) h b = None" using a assms by simp
  moreover have "hashCode H (Suc n) h a = None"
    using a assms by (cases n) (simp_all add: properties_def)
  ultimately show ?case by simp
qed

lemma equals_0 [simp]: "equals H 0 h a b = None"
  by (simp add: equals.simps)


subsection \<open>makeNullable on a union\<close>

lemma find_kind_None:
  "\<forall>t \<in> set ts. kind (h ! t) \<noteq> k \<Longrightarrow>
   find (\<lambda>(k', t). k' = k) (map (\<lambda>t. (kind (h ! t), t)) ts) = None"
  by (induction ts) auto

lemma findMember_none:
  assumes "\<forall>m \<in> set (members u). m < length h" "\<forall>m \<in> set (members u). kind (h ! m) \<noteq> k"
  shows "findMember h u k = Inr None"
  using assms by (simp add: findMember_def withKinds_valid find_kind_None)

lemma removeNullFromUnion_no_null:
  assumes "\<forall>m \<in> set (members u). m < length h"
    "\<forall>m \<in> set (members u). kind (h ! m) \<noteq> ''null''"
  shows "removeNullFromUnion H n h u = ok (None, memberSet u)"
  using findMember_none[OF assms] by (simp add: removeNullFromUnion_def)

lemma makeNullable_union:
  assumes "nodeAt h t = Some (UnionType u)"
    and "\<forall>m \<in> set (members u). m < length h"
    and "\<forall>m \<in> set (members u). kind (h ! m) \<noteq> ''null''"
  shows "makeNullable H n h t typeNames areNamesInferred =
     andThen (nodeSet_add H n (h @ [PrimitiveType KNull]) (memberSet u) (length h))
       (new_UnionType (h @ [PrimitiveType KNull]) typeNames areNamesInferred)"
proof -
  have k: "kind (UnionType u) \<noteq> ''null''" by simp
  show ?thesis
    unfolding makeNullable_def assms(1) option.case if_not_P[OF k] typeNode.case
      removeNullFromUnion_no_null[OF assms(2,3)]
    by (simp add: alloc_def)
qed

lemma nodeAt_eightMembersHeap:
  "nodeAt (eightMembersHeap @ h') 0 = Some (ClassType \<lparr>p_names = [''A''],
      p_areNamesInferred = True, p_properties = Some [(''children'', 1)]\<rparr>)"
  "nodeAt (eightMembersHeap @ h') (Suc 0) = Some (ArrayType 0)"
  "nodeAt eightMembersHeap 8 = Some (UnionType \<lparr>p_names = [''U''], p_areNamesInferred = True,
      members = [0, 1, 2, 3, 4, 5, 6, 7],
      membersMap = Some (ArrayMapNode
        [(0, 0), (1, 1), (2, 2), (3, 3), (4, 4), (5, 5), (6, 6), (7, 7)])\<rparr>)"
  "length eightMembersHeap = 9"
  by (simp_all add: nodeAt_def eightMembersHeap_def)

lemma nodeSet_add_eightMembers:
  "nodeSet_add H n (eightMembersHeap @ [PrimitiveType KNull])
     \<lparr>oMap = Some (ArrayMapNode [(0, 0), (1, 1), (2, 2), (3, 3), (4, 4), (5, 5), (6, 6), (7, 7)]),
      oList = [0, 1, 2, 3, 4, 5, 6, 7]\<rparr> 9 = None"
proof (cases n)
  case 0
  then show ?thesis by (simp add: nodeSet_add_def mapGet_def isSame_def)
next
  case (Suc m)
  let ?h1 = "eightMembersHeap @ [PrimitiveType KNull]"
  let ?es = "[(0, 0), (1, 1), (2, 2), (3, 3), (4, 4), (5, 5), (6, 6), (7, 7)] :: (nat \<times> nat) list"
  let ?V = "{0, 1, 2, 3, 4, 5, 6, 7, 9} :: nat set"
  let ?eq = "equals H (Suc m) ?h1" and ?hs = "hashOfNode H (Suc m) ?h1"
  have eq: "eqOK ?eq ?V"
    by (rule eqOK_distinct_kinds) (simp_all add: eightMembersHeap_def)
  have f: "findKey ?eq 9 ?es = ok None"
    by (rule findKey_absent[OF eq]) simp_all
  have h0: "?hs 0 = None"
    using cycle_hash_diverges[where h = ?h1 and a = 0 and b = "Suc 0" and H = H
        and n = "Suc m", OF nodeAt_eightMembersHeap(1) _ nodeAt_eightMembersHeap(2)]
    by (simp add: hashOfNode_def)
  have s: "isSame ?eq 0 9 = ok False" using isSame_eqOK[OF eq, of 0 9] by simp
  have u: "trieUpdate ?eq ?hs (ValueNode hk (9, v)) 0 None 0 0 = None" for hk and v :: nat
    using s h0 by simp
  have c: "createNodes ?eq ?hs ?es 9 v = None" for v :: nat
  proof (cases m)
    case 0
    then have "?hs 9 = None" by (simp add: hashOfNode_def nodeAt_def eightMembersHeap_def)
    then show ?thesis by (simp add: createNodes_def)
  next
    case (Suc k)
    then have "?hs 9 = ok (immutableHash H (stringHash H ''null''))"
      by (simp add: hashOfNode_def nodeAt_def eightMembersHeap_def)
    then show ?thesis using u by (simp add: createNodes_def del: trieUpdate.simps)
  qed
  from f c Suc show ?thesis by (simp add: nodeSet_add_def mapGet_def mapSet_def)
qed

text \<open>
  C9. On the union of eight members, two of which are the class and its array,
  makeNullable does not return, with any fuel: the member set holds 8 entries, so adding
  the new null primitive makes Immutable.js hash every member, and the hash of the class
  does not return. On the union of integer and string it returns a new union with the names
  and the flag supplied, whose members are those of the union and the new null primitive.
\<close>

theorem makeNullable_diverges_on_union_of_eight:
  "makeNullable H n eightMembersHeap 8 typeNames areNamesInferred = None \<and>
   makeNullable H (Suc n) unionHeap 2 (Name ''V'') False =
     ok (4, unionHeap @ [PrimitiveType KNull,
                         UnionType \<lparr>p_names = [''V''], p_areNamesInferred = False,
                                    members = [0, 1, 3],
                                    membersMap = Some (ArrayMapNode [(0, 0), (1, 1), (3, 2)])\<rparr>])"
proof
  have "makeNullable H n eightMembersHeap 8 typeNames areNamesInferred =
     andThen (nodeSet_add H n (eightMembersHeap @ [PrimitiveType KNull])
         (memberSet \<lparr>p_names = [''U''], p_areNamesInferred = True,
            members = [0, 1, 2, 3, 4, 5, 6, 7],
            membersMap = Some (ArrayMapNode
              [(0, 0), (1, 1), (2, 2), (3, 3), (4, 4), (5, 5), (6, 6), (7, 7)])\<rparr>)
         (length eightMembersHeap))
       (new_UnionType (eightMembersHeap @ [PrimitiveType KNull]) typeNames areNamesInferred)"
    by (rule makeNullable_union[OF nodeAt_eightMembersHeap(3)])
      (simp_all add: eightMembersHeap_def)
  with nodeSet_add_eightMembers[of H n]
  show "makeNullable H n eightMembersHeap 8 typeNames areNamesInferred = None"
    by (simp add: memberSet_def nodeAt_eightMembersHeap(4))
  show "makeNullable H (Suc n) unionHeap 2 (Name ''V'') False =
     ok (4, unionHeap @ [PrimitiveType KNull,
                         UnionType \<lparr>p_names = [''V''], p_areNamesInferred = False,
                                    members = [0, 1, 3],
                                    membersMap = Some (ArrayMapNode [(0, 0), (1, 1), (3, 2)])\<rparr>])"
    by (simp add: makeNullable_def unionHeap_def nodeAt_def removeNullFromUnion_def
        findMember_def withKinds_def memberSet_def alloc_def nodeSet_add_def mapGet_def
        mapSet_def isSame_def equals.simps typesEqual_def expandForEquality_def
        new_UnionType_def namesOf_def nth_append)
qed


lemma hashOfNode_primitive:
  "nodeAt h t = Some (PrimitiveType k) \<Longrightarrow>
   hashOfNode H (Suc (Suc n)) h t = ok (immutableHash H (stringHash H (primitiveKindName k)))"
  by (simp add: hashOfNode_def)

lemma inj_on_kinds_insert:
  assumes "distinct (map (\<lambda>m. kind (h ! m)) ms)" "\<forall>m \<in> set ms. kind (h ! m) \<noteq> kind (h ! x)"
  shows "inj_on (\<lambda>a. kind (h ! a)) (insert x (set ms))"
proof -
  from assms(1) have "inj_on (\<lambda>a. kind (h ! a)) (set ms)" by (simp add: distinct_map)
  moreover from assms(2) have "kind (h ! x) \<notin> (\<lambda>a. kind (h ! a)) ` (set ms - {x})" by auto
  ultimately show ?thesis by simp
qed

lemma makeNullable_union_ok:
  assumes t: "nodeAt h t = Some (UnionType u)"
    and valid: "\<forall>m \<in> set (members u). m < length h"
    and nonull: "\<forall>m \<in> set (members u). kind (h ! m) \<noteq> ''null''"
    and kinds: "distinct (map (\<lambda>m. kind (h ! m)) (members u))"
    and held: "holdsElements (memberSet u)"
    and ne: "members u \<noteq> []"
    and hash: "8 \<le> length (members u) \<longrightarrow> (\<forall>m \<in> set (members u). \<exists>v. hashCode H K h m = ok v)"
    and fuel: "K + 1 < n"
  shows "\<exists>m. makeNullable H n h t typeNames areNamesInferred =
     ok (Suc (length h),
         h @ [PrimitiveType KNull,
              UnionType \<lparr>p_names = namesOf typeNames, p_areNamesInferred = areNamesInferred,
                         members = members u @ [length h], membersMap = m\<rparr>])"
proof -
  let ?h1 = "h @ [PrimitiveType KNull]"
  let ?V = "insert (length h) (set (members u))"
  from fuel obtain n' where n: "n = Suc (Suc n')" by (metis Suc_eq_plus1 less_imp_Suc_add add_Suc)
  have old: "?h1 ! m = h ! m" if "m \<in> set (members u)" for m
    using valid that by (simp add: nth_append)
  have "distinct (map (\<lambda>m. kind (?h1 ! m)) (members u))"
    using kinds old by (simp cong: map_cong)
  moreover have "\<forall>m \<in> set (members u). kind (?h1 ! m) \<noteq> kind (?h1 ! length h)"
    using nonull old by simp
  ultimately have inj: "inj_on (\<lambda>a. kind (?h1 ! a)) ?V" by (rule inj_on_kinds_insert)
  have "\<forall>a \<in> ?V. a < length ?h1" using valid by auto
  from eqOK_distinct_kinds[OF this inj] have eq: "eqOK (equals H n ?h1) ?V" unfolding n .
  have new: "length h \<notin> set (oList (memberSet u))" using valid by (auto simp: memberSet_def)
  have sub: "set (oList (memberSet u)) \<subseteq> ?V" by (auto simp: memberSet_def)
  have hk: "hashesKeys (oMap (memberSet u)) \<longrightarrow> (\<exists>hk. hashOfNode H n ?h1 (length h) = ok hk)"
    unfolding n using hashOfNode_primitive[of ?h1 "length h" KNull H n'] by simp
  have hs: "\<forall>entries. oMap (memberSet u) = Some (ArrayMapNode entries) \<and> 8 \<le> length entries \<longrightarrow>
           hsOK (hashOfNode H n ?h1) (set (oList (memberSet u)))"
  proof (intro allI impI)
    fix entries
    assume a: "oMap (memberSet u) = Some (ArrayMapNode entries) \<and> 8 \<le> length entries"
    with held have "map fst entries = members u" by (simp add: holdsElements_def memberSet_def)
    then have "length entries = length (members u)" by (metis length_map)
    with a hash have "\<forall>m \<in> set (members u). \<exists>v. hashCode H K h m = ok v" by simp
    then show "hsOK (hashOfNode H n ?h1) (set (oList (memberSet u)))"
      using hashOfNode_append[of H K h _ _ n "[PrimitiveType KNull]"] fuel
      by (fastforce simp: hsOK_def memberSet_def)
  qed
  from nodeSet_add_new[OF eq _ new sub held hk hs] obtain m where
    "nodeSet_add H n ?h1 (memberSet u) (length h) =
       ok \<lparr>oMap = m, oList = oList (memberSet u) @ [length h]\<rparr>" by auto
  moreover have "length (members u @ [length h]) > 1" using ne by (cases "members u") auto
  ultimately show ?thesis
    unfolding makeNullable_union[OF t valid nonull]
    by (simp add: new_UnionType_def alloc_def memberSet_def)
qed

subsection \<open>removeNull after makeNullable\<close>

lemma find_append_last:
  "\<forall>x \<in> set xs. \<not> P x \<Longrightarrow> P y \<Longrightarrow> find P (xs @ [y]) = Some y"
  by (induction xs) auto

lemma removeNullFromUnion_last_null:
  assumes ms: "members u = base @ [nullT]"
    and valid: "\<forall>m \<in> set (members u). m < length h"
    and null: "kind (h ! nullT) = ''null''"
    and base: "\<forall>m \<in> set base. kind (h ! m) \<noteq> ''null''"
    and kinds: "distinct (map (\<lambda>m. kind (h ! m)) base)"
    and hash: "8 < length base \<longrightarrow> hsOK (hashOfNode H (Suc n) h) (set base)"
  shows "\<exists>m. removeNullFromUnion H (Suc n) h u = ok (Some nullT, \<lparr>oMap = m, oList = base\<rparr>)"
proof -
  let ?ks = "map (\<lambda>t. (kind (h ! t), t)) (members u)"
  have wk: "withKinds h (members u) = Inr ?ks" by (rule withKinds_valid[OF valid])
  have "find (\<lambda>(k', t). k' = ''null'') ?ks = Some (kind (h ! nullT), nullT)"
    unfolding ms using base null by (simp add: find_append_last)
  then have fm: "findMember h u ''null'' = Inr (Some nullT)"
    by (simp add: findMember_def wk)
  have fl: "map snd (filter (\<lambda>(k, t). k \<noteq> ''null'') ?ks) = base"
    unfolding ms using base null by (simp add: filter_map comp_def filter_id_conv)
  have "\<forall>a \<in> set base. a < length h" using valid ms by simp
  moreover from kinds have "inj_on (\<lambda>a. kind (h ! a)) (set base)" by (simp add: distinct_map)
  ultimately have eq: "eqOK (equals H (Suc n) h) (set base)" by (rule eqOK_distinct_kinds)
  from kinds have d: "distinct base" by (simp add: distinct_map)
  from nodeSet_of_new[OF eq subset_refl d hash] obtain m where
    "nodeSet_of H (Suc n) h base = ok \<lparr>oMap = m, oList = base\<rparr>" by blast
  with fm wk fl show ?thesis by (simp add: removeNullFromUnion_def)
qed

lemma equals_refl_non_union:
  assumes "nodeAt h t = Some node" "\<forall>u. node \<noteq> UnionType u"
  shows "equals H (Suc n) h t t = ok True"
  using assms by (cases node) (auto simp: equals.simps typesEqual_def)

lemma everyPair_refl: "everyPair eq xs xs = ok True"
  by (induction xs) (simp_all add: isSame_def)

lemma equals_union_same_members:
  assumes "nodeAt h a = Some (UnionType u)" "nodeAt h b = Some (UnionType u')"
    "members u = members u'"
  shows "equals H (Suc n) h a b = ok (p_names u = p_names u')"
  using assms by (simp add: equals.simps orderedSetEquals_def everyPair_refl)


lemma removeNull_makeNullable_non_union:
  fixes typeNames :: nameOrNames and areNamesInferred :: bool
  assumes t: "nodeAt h t = Some node" and nn: "kind node \<noteq> ''null''"
    and nu: "\<forall>u. node \<noteq> UnionType u"
  shows "\<exists>h2. makeNullable H (Suc n) h t typeNames areNamesInferred = ok (Suc (length h), h2) \<and>
    removeNull H (Suc n) h2 (Suc (length h)) = ok (t, h2) \<and>
    equals H (Suc n) h2 t t = ok True"
proof -
  let ?h1 = "h @ [PrimitiveType KNull]"
  from nodeAt_SomeD[OF t] have tl: "t < length h" and ht: "h ! t = node" by simp_all
  have "\<forall>a \<in> {t, length h}. a < length ?h1" using tl by simp
  moreover have "inj_on (\<lambda>a. kind (?h1 ! a)) {t, length h}"
    using tl ht nn by (simp add: nth_append)
  ultimately have eq: "eqOK (equals H (Suc n) ?h1) {t, length h}" by (rule eqOK_distinct_kinds)
  have "set [t, length h] \<subseteq> {t, length h}" by simp
  from nodeSet_of_new[OF eq this] tl obtain m where
    m: "nodeSet_of H (Suc n) ?h1 [t, length h] = ok \<lparr>oMap = m, oList = [t, length h]\<rparr>"
    by auto
  let ?N = "\<lparr>p_names = namesOf typeNames, p_areNamesInferred = areNamesInferred,
             members = [t, length h], membersMap = m\<rparr>"
  let ?h2 = "h @ [PrimitiveType KNull, UnionType ?N]"
  have mk: "makeNullable H (Suc n) h t typeNames areNamesInferred = ok (Suc (length h), ?h2)"
    using t nn nu m
    by (cases node) (simp_all add: makeNullable_def alloc_def new_UnionType_def)
  have un: "nodeAt ?h2 (Suc (length h)) = Some (UnionType ?N)" by simp
  have "\<exists>m'. removeNullFromUnion H (Suc n) ?h2 ?N = ok (Some (length h), \<lparr>oMap = m', oList = [t]\<rparr>)"
    by (rule removeNullFromUnion_last_null)
      (use tl ht nn in \<open>auto simp: nth_append\<close>)
  with un have rm: "removeNull H (Suc n) ?h2 (Suc (length h)) = ok (t, ?h2)"
    by (auto simp: removeNull_def)
  have "nodeAt ?h2 t = Some node" using tl ht by (simp add: nodeAt_def nth_append)
  then have "equals H (Suc n) ?h2 t t = ok True" using nu by (rule equals_refl_non_union)
  with mk rm show ?thesis by blast
qed

lemma removeNull_makeNullable_union:
  fixes typeNames :: nameOrNames and areNamesInferred :: bool
  assumes t: "nodeAt h t = Some (UnionType u)"
    and valid: "\<forall>m \<in> set (members u). m < length h"
    and nonull: "\<forall>m \<in> set (members u). kind (h ! m) \<noteq> ''null''"
    and kinds: "distinct (map (\<lambda>m. kind (h ! m)) (members u))"
    and held: "holdsElements (memberSet u)"
    and size: "1 < length (members u)"
    and hash: "8 \<le> length (members u) \<longrightarrow> (\<forall>m \<in> set (members u). \<exists>v. hashCode H K h m = ok v)"
    and fuel: "K + 1 < n"
  shows "\<exists>h1 h2 u'. makeNullable H n h t typeNames areNamesInferred = ok (Suc (length h), h1) \<and>
    removeNull H n h1 (Suc (length h)) = ok (Suc (Suc (length h)), h2) \<and>
    nodeAt h2 (Suc (Suc (length h))) = Some (UnionType u') \<and>
    p_names u' = namesOf typeNames \<and> p_areNamesInferred u' = areNamesInferred \<and>
    members u' = members u \<and>
    equals H n h2 (Suc (Suc (length h))) t = ok (namesOf typeNames = p_names u)"
proof -
  from nodeAt_SomeD[OF t] have tl: "t < length h" and ht: "h ! t = UnionType u" by simp_all
  from size have ne: "members u \<noteq> []" by auto
  from fuel obtain n' where n: "n = Suc n'" by (cases n) auto
  from makeNullable_union_ok[OF t valid nonull kinds held ne hash fuel, of typeNames
      areNamesInferred]
  obtain m where mk: "makeNullable H n h t typeNames areNamesInferred =
     ok (Suc (length h),
         h @ [PrimitiveType KNull,
              UnionType \<lparr>p_names = namesOf typeNames, p_areNamesInferred = areNamesInferred,
                         members = members u @ [length h], membersMap = m\<rparr>])" by blast
  let ?N = "\<lparr>p_names = namesOf typeNames, p_areNamesInferred = areNamesInferred,
             members = members u @ [length h], membersMap = m\<rparr>"
  let ?h2 = "h @ [PrimitiveType KNull, UnionType ?N]"
  have un: "nodeAt ?h2 (Suc (length h)) = Some (UnionType ?N)" by simp
  have old: "?h2 ! m = h ! m" if "m \<in> set (members u)" for m
    using valid that by (simp add: nth_append)
  have "\<exists>m'. removeNullFromUnion H (Suc n') ?h2 ?N =
      ok (Some (length h), \<lparr>oMap = m', oList = members u\<rparr>)"
  proof (rule removeNullFromUnion_last_null)
    show "members ?N = members u @ [length h]" by simp
    show "\<forall>m \<in> set (members ?N). m < length ?h2" using valid by auto
    show "kind (?h2 ! length h) = ''null''" by simp
    show "\<forall>m \<in> set (members u). kind (?h2 ! m) \<noteq> ''null''" using nonull old by simp
    show "distinct (map (\<lambda>m. kind (?h2 ! m)) (members u))"
      using kinds old by (simp cong: map_cong)
    show "8 < length (members u) \<longrightarrow> hsOK (hashOfNode H (Suc n') ?h2) (set (members u))"
    proof
      assume "8 < length (members u)"
      with hash have "\<forall>m \<in> set (members u). \<exists>v. hashCode H K h m = ok v" by simp
      then show "hsOK (hashOfNode H (Suc n') ?h2) (set (members u))"
        using hashOfNode_append[of H K h _ _ n "[PrimitiveType KNull, UnionType ?N]"] fuel n
        by (fastforce simp: hsOK_def)
    qed
  qed
  then obtain m' where rn: "removeNullFromUnion H n ?h2 ?N =
      ok (Some (length h), \<lparr>oMap = m', oList = members u\<rparr>)" using n by blast
  let ?R = "\<lparr>p_names = namesOf typeNames, p_areNamesInferred = areNamesInferred,
             members = members u, membersMap = m'\<rparr>"
  obtain first rest where fr: "members u = first # rest" using ne by (cases "members u") auto
  from rn un fr size
  have rm: "removeNull H n ?h2 (Suc (length h)) = ok (Suc (Suc (length h)), ?h2 @ [UnionType ?R])"
    by (simp add: removeNull_def new_UnionType_def alloc_def namesOf_def)
  have r: "nodeAt (?h2 @ [UnionType ?R]) (Suc (Suc (length h))) = Some (UnionType ?R)"
    by (simp add: nodeAt_def nth_append)
  moreover have "nodeAt (?h2 @ [UnionType ?R]) t = Some (UnionType u)"
    using tl ht by (simp add: nodeAt_def nth_append)
  moreover have "members ?R = members u" by simp
  ultimately have "equals H (Suc n') (?h2 @ [UnionType ?R]) (Suc (Suc (length h))) t =
      ok (p_names ?R = p_names u)"
    by (rule equals_union_same_members)
  then have "equals H n (?h2 @ [UnionType ?R]) (Suc (Suc (length h))) t =
      ok (namesOf typeNames = p_names u)" using n by simp
  with mk rm r show ?thesis by (intro exI[of _ ?h2] exI[of _ "?h2 @ [UnionType ?R]"]
        exI[of _ ?R]) simp
qed


text \<open>
  From the union U of integer and string, makeNullable with the name V and removeNull give
  a union V of integer and string, which is not equal to U.
\<close>

theorem removeNull_makeNullable_renames_union:
  "andThen (makeNullable exampleHashing 1 unionHeap 2 (Name ''V'') False) (\<lambda>(r, h1).
     andThen (removeNull exampleHashing 1 h1 r) (\<lambda>(r', h2).
       equals exampleHashing 1 h2 r' 2)) = ok False"
  by (simp add: makeNullable_def removeNull_def unionHeap_def nodeAt_def removeNullFromUnion_def
      findMember_def withKinds_def memberSet_def alloc_def nodeSet_add_def nodeSet_of_def
      emptyOrderedSet_def mapGet_def mapSet_def isSame_def equals.simps typesEqual_def
      expandForEquality_def new_UnionType_def namesOf_def nth_append orderedSetEquals_def)

text \<open>
  C3, amended. Let t be a node that is not of kind null. If t is not a union,
  removeNull(makeNullable(t, n, false)) returns t itself, which equals t. If t is a union
  with no member of kind null, whose members are of pairwise distinct kinds, whose member
  set holds the members as its keys, and on whose members hashCode returns in case they are
  8 or more, it returns a new union with the members of t, whose names are the names n: it
  equals t exactly when n is the name set of t.
\<close>

theorem removeNull_makeNullable_round_trip:
  assumes "nodeAt h t = Some node" and "kind node \<noteq> ''null''"
    and "\<forall>u. node = UnionType u \<longrightarrow>
           1 < length (members u) \<and>
           (\<forall>m \<in> set (members u). m < length h \<and> kind (h ! m) \<noteq> ''null'') \<and>
           distinct (map (\<lambda>m. kind (h ! m)) (members u)) \<and>
           holdsElements (memberSet u) \<and>
           (8 \<le> length (members u) \<longrightarrow> (\<forall>m \<in> set (members u). \<exists>v. hashCode H K h m = ok v))"
    and "K + 1 < n"
  shows "\<exists>r h1 r' h2.
     makeNullable H n h t typeNames False = ok (r, h1) \<and>
     removeNull H n h1 r = ok (r', h2) \<and>
     (case node of
        UnionType u \<Rightarrow>
          (\<exists>u'. nodeAt h2 r' = Some (UnionType u') \<and> p_names u' = namesOf typeNames \<and>
                p_areNamesInferred u' = False \<and> members u' = members u) \<and>
          equals H n h2 r' t = ok (namesOf typeNames = p_names u)
      | _ \<Rightarrow> r' = t \<and> equals H n h2 r' t = ok True)"
proof (cases "\<exists>u. node = UnionType u")
  case False
  then have nu: "\<forall>u. node \<noteq> UnionType u" by simp
  from assms(4) obtain n' where n: "n = Suc n'" by (cases n) auto
  from removeNull_makeNullable_non_union[OF assms(1,2) nu, of H n' typeNames False]
  obtain h2 where "makeNullable H n h t typeNames False = ok (Suc (length h), h2)"
    "removeNull H n h2 (Suc (length h)) = ok (t, h2)" "equals H n h2 t t = ok True"
    unfolding n by blast
  with nu show ?thesis by (cases node) auto
next
  case True
  then obtain u where u: "node = UnionType u" by blast
  with assms(1,3) have t: "nodeAt h t = Some (UnionType u)"
    and valid: "\<forall>m \<in> set (members u). m < length h"
    and nonull: "\<forall>m \<in> set (members u). kind (h ! m) \<noteq> ''null''"
    and kinds: "distinct (map (\<lambda>m. kind (h ! m)) (members u))"
    and held: "holdsElements (memberSet u)" and size: "1 < length (members u)"
    and hash: "8 \<le> length (members u) \<longrightarrow> (\<forall>m \<in> set (members u). \<exists>v. hashCode H K h m = ok v)"
    by simp_all
  from removeNull_makeNullable_union[OF t valid nonull kinds held size hash assms(4),
      of typeNames False]
  show ?thesis unfolding u by auto
qed

lemma holdsElements_unionHeap:
  "holdsElements (memberSet \<lparr>p_names = [''U''], p_areNamesInferred = True, members = [0, 1],
     membersMap = Some (ArrayMapNode [(0, 0), (1, 1)])\<rparr>)"
  by (simp add: holdsElements_def memberSet_def)

theorem removeNull_makeNullable_round_trip_witness:
  "nodeAt unionHeap 2 =
     Some (UnionType \<lparr>p_names = [''U''], p_areNamesInferred = True, members = [0, 1],
                       membersMap = Some (ArrayMapNode [(0, 0), (1, 1)])\<rparr>) \<and>
   kind (unionHeap ! 0) = ''integer'' \<and> kind (unionHeap ! 1) = ''string'' \<and>
   (\<exists>r h1 r' h2.
      makeNullable exampleHashing 2 unionHeap 2 (Name ''U'') False = ok (r, h1) \<and>
      removeNull exampleHashing 2 h1 r = ok (r', h2) \<and>
      equals exampleHashing 2 h2 r' 2 = ok True) \<and>
   nodeAt unionHeap 0 = Some (PrimitiveType KInteger) \<and>
   (\<exists>r h1 h2.
      makeNullable exampleHashing 2 unionHeap 0 (Name ''V'') False = ok (r, h1) \<and>
      removeNull exampleHashing 2 h1 r = ok (0, h2) \<and>
      equals exampleHashing 2 h2 0 0 = ok True)"
proof -
  have t: "nodeAt unionHeap 2 =
      Some (UnionType \<lparr>p_names = [''U''], p_areNamesInferred = True, members = [0, 1],
                        membersMap = Some (ArrayMapNode [(0, 0), (1, 1)])\<rparr>)"
    and t0: "nodeAt unionHeap 0 = Some (PrimitiveType KInteger)"
    and k: "kind (unionHeap ! 0) = ''integer''" "kind (unionHeap ! 1) = ''string''"
    by (simp_all add: unionHeap_def nodeAt_def)
  have l: "length unionHeap = 3" by (simp add: unionHeap_def)
  from removeNull_makeNullable_round_trip[OF t, of exampleHashing 0 2 "Name ''U''"] k l
    holdsElements_unionHeap
  have a: "\<exists>r h1 r' h2.
      makeNullable exampleHashing 2 unionHeap 2 (Name ''U'') False = ok (r, h1) \<and>
      removeNull exampleHashing 2 h1 r = ok (r', h2) \<and>
      equals exampleHashing 2 h2 r' 2 = ok True"
    by (auto simp: namesOf_def)
  from removeNull_makeNullable_round_trip[OF t0, of exampleHashing 0 2 "Name ''V''"]
  have b: "\<exists>r h1 h2.
      makeNullable exampleHashing 2 unionHeap 0 (Name ''V'') False = ok (r, h1) \<and>
      removeNull exampleHashing 2 h1 r = ok (0, h2) \<and>
      equals exampleHashing 2 h2 0 0 = ok True"
    by auto
  from t t0 k a b show ?thesis by simp
qed


section \<open>filterTypes\<close>

subsection \<open>children\<close>

lemma entriesOf_ok:
  "set ks \<subseteq> fst ` set props \<Longrightarrow>
   \<exists>es. entriesOf props ks = Inr es \<and> map fst es = ks \<and>
     (\<forall>e \<in> set es. map_of props (fst e) = Some (snd e))"
proof (induction ks)
  case Nil
  show ?case by simp
next
  case (Cons k ks)
  then have "k \<in> fst ` set props" by simp
  then obtain t where t: "map_of props k = Some t"
    using map_of_eq_None_iff[of props k] by (cases "map_of props k") auto
  from Cons obtain es where "entriesOf props ks = Inr es" "map fst es = ks"
    "\<forall>e \<in> set es. map_of props (fst e) = Some (snd e)" by auto
  with t show ?case by simp
qed

lemma sortedProperties_ok:
  assumes "p_properties c = Some props" "distinct (map fst props)"
  shows "\<exists>es. sortedProperties c = Inr es \<and> set es = set props"
proof -
  have "set (sort (map fst props)) \<subseteq> fst ` set props" by simp
  from entriesOf_ok[OF this] obtain es where
    es: "entriesOf props (sort (map fst props)) = Inr es" "map fst es = sort (map fst props)"
      "\<forall>e \<in> set es. map_of props (fst e) = Some (snd e)" by blast
  have "set es = set props"
  proof (intro set_eqI iffI)
    fix e assume "e \<in> set es"
    with es(3) have "map_of props (fst e) = Some (snd e)" by simp
    from map_of_SomeD[OF this] show "e \<in> set props" by simp
  next
    fix e assume e: "e \<in> set props"
    then have "fst e \<in> set (map fst es)" using es(2) by simp
    then obtain e' where e': "e' \<in> set es" "fst e' = fst e" by auto
    with es(3) have "map_of props (fst e) = Some (snd e')" by auto
    moreover from e assms(2) have "map_of props (fst e) = Some (snd e)" by simp
    ultimately have "e' = e" using e'(2) by (simp add: prod_eq_iff)
    with e'(1) show "e \<in> set es" by simp
  qed
  with es(1) assms(1) show ?thesis by (simp add: sortedProperties_def properties_def)
qed

lemma children_ok:
  assumes eq: "eqOK (equals H n h) V" and fin: "finite V"
    and big: "8 < card V \<longrightarrow> (\<forall>x \<in> V. hashOfNode H n h x = ok (hv x))"
    and t: "t \<in> V" and valid: "\<forall>x \<in> V. x < length h"
    and closed: "set (childRefs h t) \<subseteq> V" and ready: "classesReady h V"
  shows "\<exists>s. children H n h t = ok s \<and> set (oList s) = set (childRefs h t)"
proof -
  from t valid have tl: "t < length h" by simp
  note of_inv = nodeSet_of_inv[OF eq fin big]
  show ?thesis
  proof (cases "h ! t")
    case (PrimitiveType k)
    with tl show ?thesis
      by (simp add: children_def childRefs_def nodeAt_def emptyOrderedSet_def)
  next
    case (EnumType e)
    with tl show ?thesis
      by (simp add: children_def childRefs_def nodeAt_def emptyOrderedSet_def)
  next
    case (ArrayType items)
    with tl have n: "nodeAt h t = Some (ArrayType items)" by (simp add: nodeAt_def)
    with closed have "set [items] \<subseteq> V" by (simp add: childRefs_def)
    from of_inv[OF this] n show ?thesis by (auto simp: children_def childRefs_def)
  next
    case (MapType vals)
    with tl have n: "nodeAt h t = Some (MapType vals)" by (simp add: nodeAt_def)
    with closed have "set [vals] \<subseteq> V" by (simp add: childRefs_def)
    from of_inv[OF this] n show ?thesis by (auto simp: children_def childRefs_def)
  next
    case (ClassType c)
    with tl have n: "nodeAt h t = Some (ClassType c)" by (simp add: nodeAt_def)
    with ready t obtain props where props: "p_properties c = Some props"
      "distinct (map fst props)" by (auto simp: classesReady_def)
    from sortedProperties_ok[OF props]
    obtain es where es: "sortedProperties c = Inr es" "set es = set props" by blast
    have cr: "childRefs h t = map snd props" using n props by (simp add: childRefs_def)
    have "set (map snd es) \<subseteq> V" using closed cr es(2) by simp
    from of_inv[OF this] obtain s where
      "nodeSet_of H n h (map snd es) = ok s" "set (oList s) = set (map snd es)" by blast
    with n es cr show ?thesis by (simp add: children_def)
  next
    case (UnionType u)
    with tl have n: "nodeAt h t = Some (UnionType u)" by (simp add: nodeAt_def)
    have cr: "childRefs h t = members u" using n by (simp add: childRefs_def)
    with closed valid have m: "\<forall>m \<in> set (members u). m < length h" by auto
    let ?ks = "map (\<lambda>t. (kind (h ! t), t)) (members u)"
    have se: "set (map snd (sort_key fst ?ks)) = set (members u)" by (simp add: image_image)
    with closed cr have "set (map snd (sort_key fst ?ks)) \<subseteq> V" by simp
    from of_inv[OF this] obtain s where
      "nodeSet_of H n h (map snd (sort_key fst ?ks)) = ok s"
      "set (oList s) = set (map snd (sort_key fst ?ks))" by blast
    with se show ?thesis
      using n cr withKinds_valid[OF m] by (simp add: children_def sortedMembers_def)
  qed
qed

subsection \<open>The walk\<close>

lemma walkPost_skip:
  "mapOK hv V (seen st) \<Longrightarrow> ts \<subseteq> seenNodes st \<Longrightarrow> walkPost hv predicate kids V ts st st"
  by (simp add: walkPost_def)

lemma walkPost_trans:
  assumes a: "walkPost hv predicate kids V A st st1"
    and b: "walkPost hv predicate kids V B st1 st2"
  shows "walkPost hv predicate kids V (A \<union> B) st st2"
proof -
  let ?E = "{(a, b). b \<in> kids a}"
  from a obtain new1 where 1: "seenNodes st \<subseteq> seenNodes st1" "A \<subseteq> seenNodes st1"
    "calls st1 = calls st @ new1" "types st1 = types st @ filter predicate new1"
    "distinct new1" "set new1 = seenNodes st1 - seenNodes st"
    "seenNodes st1 \<subseteq> seenNodes st \<union> ?E\<^sup>* `` A"
    "\<forall>x \<in> seenNodes st1 - seenNodes st. kids x \<subseteq> seenNodes st1"
    unfolding walkPost_def by blast
  from b obtain new2 where 2: "seenNodes st1 \<subseteq> seenNodes st2" "mapOK hv V (seen st2)"
    "B \<subseteq> seenNodes st2"
    "calls st2 = calls st1 @ new2" "types st2 = types st1 @ filter predicate new2"
    "distinct new2" "set new2 = seenNodes st2 - seenNodes st1"
    "seenNodes st2 \<subseteq> seenNodes st1 \<union> ?E\<^sup>* `` B"
    "\<forall>x \<in> seenNodes st2 - seenNodes st1. kids x \<subseteq> seenNodes st2"
    unfolding walkPost_def by blast
  have c: "calls st2 = calls st @ (new1 @ new2)" using 1(3) 2(4) by simp
  have t: "types st2 = types st @ filter predicate (new1 @ new2)" using 1(4) 2(5) by simp
  have d: "distinct (new1 @ new2)" using 1(5,6) 2(6,7) by auto
  have s: "set (new1 @ new2) = seenNodes st2 - seenNodes st" using 1(1,6) 2(1,7) by auto
  have r: "seenNodes st2 \<subseteq> seenNodes st \<union> ?E\<^sup>* `` (A \<union> B)" using 1(7) 2(8) by blast
  have k: "\<forall>x \<in> seenNodes st2 - seenNodes st. kids x \<subseteq> seenNodes st2"
    using 1(8) 2(1,9) by blast
  have "\<exists>new. calls st2 = calls st @ new \<and> types st2 = types st @ filter predicate new \<and>
        distinct new \<and> set new = seenNodes st2 - seenNodes st"
    using c t d s by blast
  with 1(1,2) 2(1,2,3) r k show ?thesis unfolding walkPost_def by blast
qed

lemma walkPost_node:
  assumes t: "t \<notin> seenNodes st"
    and st1: "seenNodes st1 = insert t (seenNodes st)" "calls st1 = calls st"
      "types st1 = types st"
    and b: "walkPost hv predicate kids V (kids t) st1 st2"
    and st': "st' = (if predicate t
        then st2\<lparr>types := types st2 @ [t], calls := calls st2 @ [t]\<rparr>
        else st2\<lparr>calls := calls st2 @ [t]\<rparr>)"
  shows "walkPost hv predicate kids V {t} st st'"
proof -
  let ?E = "{(a, b). b \<in> kids a}"
  from b obtain new where 2: "seenNodes st \<union> {t} \<subseteq> seenNodes st2" "mapOK hv V (seen st2)"
    "kids t \<subseteq> seenNodes st2"
    "calls st2 = calls st @ new" "types st2 = types st @ filter predicate new"
    "distinct new" "set new = seenNodes st2 - (seenNodes st \<union> {t})"
    "seenNodes st2 \<subseteq> seenNodes st \<union> {t} \<union> ?E\<^sup>* `` kids t"
    "\<forall>x \<in> seenNodes st2 - (seenNodes st \<union> {t}). kids x \<subseteq> seenNodes st2"
    unfolding walkPost_def st1 by auto
  have s: "seen st' = seen st2" using st' by simp
  then have sn: "seenNodes st' = seenNodes st2" by (simp add: seenNodes_def)
  have c: "calls st' = calls st @ (new @ [t])" using st' 2(4) by simp
  have ty: "types st' = types st @ filter predicate (new @ [t])" using st' 2(5) by simp
  have d: "distinct (new @ [t])" using 2(6,7) by simp
  have se: "set (new @ [t]) = seenNodes st2 - seenNodes st" using 2(1,7) t by auto
  have "?E\<^sup>* `` kids t \<subseteq> ?E\<^sup>* `` {t}"
  proof
    fix y assume "y \<in> ?E\<^sup>* `` kids t"
    then obtain x where "x \<in> kids t" "(x, y) \<in> ?E\<^sup>*" by blast
    then have "(t, y) \<in> ?E\<^sup>*" by (simp add: converse_rtrancl_into_rtrancl)
    then show "y \<in> ?E\<^sup>* `` {t}" by blast
  qed
  with 2(8) have r: "seenNodes st2 \<subseteq> seenNodes st \<union> ?E\<^sup>* `` {t}" by blast
  have k: "\<forall>x \<in> seenNodes st2 - seenNodes st. kids x \<subseteq> seenNodes st2"
    using 2(3,9) by blast
  have "\<exists>new. calls st' = calls st @ new \<and> types st' = types st @ filter predicate new \<and>
        distinct new \<and> set new = seenNodes st2 - seenNodes st"
    using c ty d se by blast
  with 2(1,2) r k s sn show ?thesis unfolding walkPost_def by auto
qed

lemma walkPost_seen:
  "walkPost hv predicate kids V ts st st' \<Longrightarrow>
   seenNodes st \<subseteq> seenNodes st' \<and> mapOK hv V (seen st')"
  by (simp add: walkPost_def)

lemma card_unseen_mono:
  assumes "finite V" "A \<subseteq> B"
  shows "card (V - B) \<le> card (V - A)"
  by (rule card_mono) (use assms in auto)

lemma card_unseen_less:
  assumes "finite V" "t \<in> V" "t \<notin> A"
  shows "card (V - insert t A) < card (V - A)"
  by (rule psubset_card_mono) (use assms in auto)

lemma forEachAcc_walk:
  assumes fin: "finite V"
    and f: "\<And>t st. t \<in> V \<Longrightarrow> mapOK hv V (seen st) \<Longrightarrow>
      K + card (V - seenNodes st) < n \<Longrightarrow>
      \<exists>st'. f t st = ok st' \<and> walkPost hv predicate kids V {t} st st'"
  shows "set cs \<subseteq> V \<Longrightarrow> mapOK hv V (seen st) \<Longrightarrow>
      K + card (V - seenNodes st) < n \<Longrightarrow>
      \<exists>st'. forEachAcc f cs st = ok st' \<and> walkPost hv predicate kids V (set cs) st st'"
proof (induction cs arbitrary: st)
  case Nil
  then show ?case by (simp add: walkPost_skip)
next
  case (Cons c cs)
  then have c: "c \<in> V" and cs: "set cs \<subseteq> V" by auto
  from f[OF c Cons.prems(2,3)] obtain st1 where
    1: "f c st = ok st1" "walkPost hv predicate kids V {c} st st1" by blast
  note s = walkPost_seen[OF 1(2)]
  have "K + card (V - seenNodes st1) < n"
    using card_unseen_mono[OF fin, of "seenNodes st" "seenNodes st1"] s Cons.prems(3) by simp
  from Cons.IH[OF cs _ this] s obtain st2 where
    2: "forEachAcc f cs st1 = ok st2" "walkPost hv predicate kids V (set cs) st1 st2" by blast
  from walkPost_trans[OF 1(2) 2(2)] have "walkPost hv predicate kids V (set (c # cs)) st st2"
    by simp
  with 1(1) 2(1) show ?case by simp
qed


lemma addFromType_walk:
  assumes eq: "\<forall>k \<ge> K. eqOK (equals H k h) V" and fin: "finite V"
    and big: "8 < card V \<longrightarrow> (\<forall>k \<ge> K. \<forall>x \<in> V. hashOfNode H k h x = ok (hv x))"
    and ch: "\<forall>k \<ge> K. \<forall>t \<in> V. \<exists>cs.
      (case childrenOfType of
         Some f \<Rightarrow> ok (f t)
       | None \<Rightarrow> andThen (children H k h t) (\<lambda>s. ok (oList s))) = ok cs \<and>
      set cs = kids t"
    and v: "\<forall>t \<in> V. kids t \<subseteq> V"
  shows "t \<in> V \<Longrightarrow> mapOK hv V (seen st) \<Longrightarrow> K + card (V - seenNodes st) < n \<Longrightarrow>
      \<exists>st'. addFromType H n h predicate childrenOfType t st = ok st' \<and>
        walkPost hv predicate kids V {t} st st'"
proof (induction n arbitrary: t st)
  case 0
  then show ?case by simp
next
  case (Suc n)
  from Suc.prems(3) have K: "K \<le> n" by simp
  with eq have eq': "eqOK (equals H n h) V" by simp
  from big K have big': "8 < card V \<longrightarrow> (\<forall>x \<in> V. hashOfNode H n h x = ok (hv x))" by simp
  from typeSet_has_inv[OF eq' Suc.prems(1,2) big']
  have has: "typeSet_has H n h (seen st) t = ok (t \<in> seenNodes st)"
    by (simp add: seenNodes_def)
  show ?case
  proof (cases "t \<in> seenNodes st")
    case True
    with has walkPost_skip[OF Suc.prems(2), of "{t}" predicate kids] show ?thesis by simp
  next
    case False
    then have "t \<notin> mapKeys (seen st)" by (simp add: seenNodes_def)
    from typeSet_add_inv[OF eq' Suc.prems(1,2) this fin big'] obtain s' where
      add: "typeSet_add H n h (seen st) t = ok s'" "mapKeys s' = insert t (mapKeys (seen st))"
        "mapOK hv V s'" by blast
    let ?st1 = "st\<lparr>seen := s'\<rparr>"
    have sn1: "seenNodes ?st1 = insert t (seenNodes st)" using add(2) by (simp add: seenNodes_def)
    from ch K Suc.prems(1) obtain cs where
      cs: "(case childrenOfType of
             Some f \<Rightarrow> ok (f t)
           | None \<Rightarrow> andThen (children H n h t) (\<lambda>s. ok (oList s))) = ok cs"
        "set cs = kids t" by blast
    from v Suc.prems(1) cs(2) have csv: "set cs \<subseteq> V" by simp
    have m1: "mapOK hv V (seen ?st1)" using add(3) by simp
    have "K + card (V - seenNodes ?st1) < n"
      using card_unseen_less[OF fin Suc.prems(1) False] Suc.prems(3) sn1 by simp
    from forEachAcc_walk[where f = "addFromType H n h predicate childrenOfType" and K = K
        and n = n and hv = hv and predicate = predicate and kids = kids and cs = cs
        and st = ?st1, OF fin Suc.IH csv m1 this]
    obtain st2 where 2: "forEachAcc (addFromType H n h predicate childrenOfType) cs ?st1 = ok st2"
      "walkPost hv predicate kids V (set cs) ?st1 st2" by blast
    let ?st' = "if predicate t
        then st2\<lparr>types := types st2 @ [t], calls := calls st2 @ [t]\<rparr>
        else st2\<lparr>calls := calls st2 @ [t]\<rparr>"
    have "addFromType H (Suc n) h predicate childrenOfType t st = ok ?st'"
      using has False add(1) cs(1) 2(1) by simp
    moreover have "walkPost hv predicate kids V {t} st ?st'"
      by (rule walkPost_node[OF False sn1 _ _ _ refl]) (use 2(2) cs(2) in simp_all)
    ultimately show ?thesis by blast
  qed
qed

lemma reachable_closed:
  assumes "roots \<subseteq> S" "\<forall>x \<in> S. kidsOf h c x \<subseteq> S"
  shows "reachable h c roots \<subseteq> S"
proof
  fix y assume "y \<in> reachable h c roots"
  then obtain x where x: "x \<in> roots" and r: "(x, y) \<in> {(a, b). b \<in> kidsOf h c a}\<^sup>*"
    by (auto simp: reachable_def)
  from r have "x \<in> S \<Longrightarrow> y \<in> S"
    by (induction rule: rtrancl_induct) (use assms(2) in auto)
  with x assms(1) show "y \<in> S" by auto
qed

lemma reachable_kids:
  "t \<in> reachable h c roots \<Longrightarrow> kidsOf h c t \<subseteq> reachable h c roots"
  by (auto simp: reachable_def intro: rtrancl_into_rtrancl)

lemma reachable_roots: "roots \<subseteq> reachable h c roots"
  by (auto simp: reachable_def)


end
